theory Spec2Isabelle
  imports Main "HOL-Library.Word"
begin

section \<open>Data model of the allocator\<close>

text \<open>
  Go's \<^verbatim>\<open>int64\<close> is a 64-bit two's complement integer: arithmetic wraps around and
  the comparisons \<^verbatim>\<open><\<close>, \<^verbatim>\<open>>=\<close> are the signed ones (\<open><s\<close>, \<open>\<le>s\<close> on words).
\<close>

type_synonym int64 = "64 word"

text \<open>
  \<^verbatim>\<open>type Segment struct { offset int64; left int64; right int64 }\<close>
\<close>

record Segment =
  offset :: int64
  left :: int64
  right :: int64

text \<open>
  A wakeup handle is a Go channel. Only its identity and whether it has been closed matter:
  a channel is a number, \<open>allocated\<close> counts the channels made so far (the next
  \<^verbatim>\<open>make(chan byte, 1)\<close> returns that number) and \<open>closedChans\<close> holds the closed ones.
\<close>

type_synonym chan = nat

record Chans =
  allocated :: nat
  closedChans :: "chan set"

text \<open>
  \<^verbatim>\<open>type BizAlloc struct { mutex; bizTag string; segments []*Segment;
                           isAllocating bool; waiting []chan byte }\<close>
  The mutex is not a field of the model: every function below that reads or writes the
  fields is one critical section of the source and is executed atomically.
\<close>

record BizAlloc =
  bizTag :: string
  segments :: "Segment list"
  isAllocating :: bool
  waiting :: "chan list"

text \<open>\<^verbatim>\<open>type Alloc struct { mutex; bizMap map[string]*BizAlloc }\<close>\<close>

record Alloc =
  bizMap :: "string \<rightharpoonup> BizAlloc"

text \<open>
  The errors of the source: whatever the database driver reports, \<^verbatim>\<open>"biz_tag not found"\<close>
  and \<^verbatim>\<open>"no available id"\<close>.
\<close>

datatype error = StoreError | BizTagNotFound | NoAvailableId

section \<open>The store advancer (Data.NextId)\<close>

text \<open>
  The database is outside the program. One call of \<^verbatim>\<open>Data.NextId\<close> makes seven driver
  calls in a row; a \<open>DbReply\<close> says how each of them answers in this transaction:
  whether it succeeds, the row count of the UPDATE, and what \<^verbatim>\<open>Scan\<close> leaves in
  \<^verbatim>\<open>maxId\<close> and \<^verbatim>\<open>step\<close>. The store handle \<^verbatim>\<open>DefaultData\<close> is a function from the
  tag of the query to these answers.
\<close>

record DbReply =
  beginTx :: bool
  prepareUpdate :: bool
  execUpdate :: bool
  rowsAffected :: "int64 option"
  prepareSelect :: bool
  scanOk :: bool
  scanned :: "int64 \<times> int64"
  commitTx :: bool

type_synonym Store = "string \<Rightarrow> DbReply"

text \<open>
  The result is Go's triple \<^verbatim>\<open>(maxId, step, err)\<close>; the two numbers are the zero value
  until \<^verbatim>\<open>Scan\<close> has run. Every failure before the commit jumps to \<^verbatim>\<open>ROLLBACK\<close>; a failed
  commit returns its error with the scanned numbers.
\<close>

definition Data_NextId :: "Store \<Rightarrow> string \<Rightarrow> int64 \<times> int64 \<times> error option" where
  "Data_NextId db tag =
     (let r = db tag in
      if \<not> beginTx r then (0, 0, Some StoreError)
      else if \<not> prepareUpdate r then (0, 0, Some StoreError)
      else if \<not> execUpdate r then (0, 0, Some StoreError)
      else case rowsAffected r of
             None \<Rightarrow> (0, 0, Some StoreError)
           | Some n \<Rightarrow>
               if n = 0 then (0, 0, Some BizTagNotFound)
               else if \<not> prepareSelect r then (0, 0, Some StoreError)
               else if \<not> scanOk r then (fst (scanned r), snd (scanned r), Some StoreError)
               else (fst (scanned r), snd (scanned r),
                     if commitTx r then None else Some StoreError))"

section \<open>The tag allocator (BizAlloc)\<close>

subsection \<open>leftCount\<close>

text \<open>
  \<^verbatim>\<open>for i := 0; i < len(segments); i++ {
    count += segments[i].right - segments[i].left - segments[i].offset }\<close>
\<close>

fun leftCount_loop :: "Segment list \<Rightarrow> int64 \<Rightarrow> int64" where
  "leftCount_loop [] count = count"
| "leftCount_loop (s # ss) count = leftCount_loop ss (count + (right s - left s - offset s))"

definition leftCount :: "BizAlloc \<Rightarrow> int64" where
  "leftCount b = leftCount_loop (segments b) 0"

subsection \<open>newSegment\<close>

text \<open>
  \<^verbatim>\<open>if maxId, step, err = DefaultData.NextId(bizTag); err != nil { return }
  seg = &Segment{}; seg.left = maxId - step; seg.right = maxId\<close>
\<close>

definition newSegment :: "Store \<Rightarrow> BizAlloc \<Rightarrow> error + Segment" where
  "newSegment db b =
     (case Data_NextId db (bizTag b) of
        (maxId, step, Some e) \<Rightarrow> Inl e
      | (maxId, step, None) \<Rightarrow> Inr \<lparr>offset = 0, left = maxId - step, right = maxId\<rparr>)"

subsection \<open>wakeup\<close>

text \<open>
  \<^verbatim>\<open>for _, waitChan = range waiting { close(waitChan) }; waiting = waiting[:0]\<close>
  Closing a channel that is closed already panics in Go: the result \<open>None\<close>.
\<close>

fun close_all :: "chan list \<Rightarrow> chan set \<Rightarrow> chan set option" where
  "close_all [] cl = Some cl"
| "close_all (c # cs) cl = (if c \<in> cl then None else close_all cs (insert c cl))"

definition wakeup :: "BizAlloc \<Rightarrow> Chans \<Rightarrow> (BizAlloc \<times> Chans) option" where
  "wakeup b h =
     (case close_all (waiting b) (closedChans h) of
        None \<Rightarrow> None
      | Some cl \<Rightarrow> Some (b\<lparr>waiting := []\<rparr>, h\<lparr>closedChans := cl\<rparr>))"

subsection \<open>popNextId\<close>

text \<open>
  \<^verbatim>\<open>nextId = segments[0].left + segments[0].offset
  segments[0].offset++
  if nextId+1 >= segments[0].right { segments = append(segments[:0], segments[1:]...) }\<close>
  Indexing an empty slice panics in Go: the result \<open>None\<close>.
\<close>

definition popNextId :: "BizAlloc \<Rightarrow> (int64 \<times> BizAlloc) option" where
  "popNextId b =
     (case segments b of
        [] \<Rightarrow> None
      | s # rest \<Rightarrow>
          (let nextId = left s + offset s;
               s' = s\<lparr>offset := offset s + 1\<rparr>
           in if right s' \<le>s nextId + 1
              then Some (nextId, b\<lparr>segments := rest\<rparr>)
              else Some (nextId, b\<lparr>segments := s' # rest\<rparr>)))"

text \<open>\<open>n\<close> pops in a row, nothing else touching the allocator in between.\<close>

fun pops :: "nat \<Rightarrow> BizAlloc \<Rightarrow> (int64 list \<times> BizAlloc) option" where
  "pops 0 b = Some ([], b)"
| "pops (Suc n) b =
     (case popNextId b of
        None \<Rightarrow> None
      | Some (i, b1) \<Rightarrow>
          (case pops n b1 of
             None \<Rightarrow> None
           | Some (ids, b2) \<Rightarrow> Some (i # ids, b2)))"

text \<open>
  The same with the refill worker at work: before each pop the segments of one element of
  the list have been appended to the buffer (\<^verbatim>\<open>segments = append(segments, seg)\<close> in
  \<^verbatim>\<open>fillSegments\<close>; the list is empty where the worker did nothing in between).
\<close>

fun pops_between :: "Segment list list \<Rightarrow> BizAlloc \<Rightarrow> (int64 list \<times> BizAlloc) option" where
  "pops_between [] b = Some ([], b)"
| "pops_between (new # news) b =
     (case popNextId (b\<lparr>segments := segments b @ new\<rparr>) of
        None \<Rightarrow> None
      | Some (i, b1) \<Rightarrow>
          (case pops_between news b1 of
             None \<Rightarrow> None
           | Some (ids, b2) \<Rightarrow> Some (i # ids, b2)))"

subsection \<open>The refill worker (fillSegments)\<close>

text \<open>
  The worker is a goroutine. Its locals are \<^verbatim>\<open>failTimes\<close> and the place it has reached:
  at the head of the loop (about to lock and look at \<^verbatim>\<open>len(segments)\<close>), or past the unlock
  of line 97 (calling \<^verbatim>\<open>newSegment\<close> with the mutex released), or gone through \<^verbatim>\<open>LEAVE\<close>.
  \<open>attempts\<close> is not in the source: it counts the calls of \<^verbatim>\<open>newSegment\<close> this worker
  has made, so that the number of store attempts can be stated.
\<close>

datatype place = LoopHead | Fetching | Exited

record Worker =
  pc :: place
  failTimes :: int64
  attempts :: nat

definition spawnWorker :: Worker where
  "spawnWorker = \<lparr>pc = LoopHead, failTimes = 0, attempts = 0\<rparr>"

text \<open>
  One atomic step of the worker. At the loop head it is the critical section of lines
  95-97 (or the \<^verbatim>\<open>break\<close> and \<^verbatim>\<open>LEAVE\<close>). While fetching it is the store call, whose answer
  \<open>db\<close> does not depend on the allocator, followed by the critical section that uses the
  answer: lines 101-106 on an error, lines 108-117 on a new segment.
\<close>

definition fill_step :: "Store \<Rightarrow> BizAlloc \<Rightarrow> Chans \<Rightarrow> Worker \<Rightarrow> (BizAlloc \<times> Chans \<times> Worker) option" where
  "fill_step db b h w =
     (case pc w of
        LoopHead \<Rightarrow>
          (if length (segments b) \<le> 1 then Some (b, h, w\<lparr>pc := Fetching\<rparr>)
           else Some (b\<lparr>isAllocating := False\<rparr>, h, w\<lparr>pc := Exited\<rparr>))
      | Fetching \<Rightarrow>
          (case newSegment db b of
             Inl e \<Rightarrow>
               (let w1 = w\<lparr>failTimes := failTimes w + 1, attempts := Suc (attempts w)\<rparr>
                in if 3 <s failTimes w1
                   then (case wakeup b h of
                           None \<Rightarrow> None
                         | Some (b1, h1) \<Rightarrow> Some (b1\<lparr>isAllocating := False\<rparr>, h1, w1\<lparr>pc := Exited\<rparr>))
                   else Some (b, h, w1\<lparr>pc := LoopHead\<rparr>))
           | Inr seg \<Rightarrow>
               (let w1 = w\<lparr>failTimes := 0, attempts := Suc (attempts w)\<rparr>;
                    b1 = b\<lparr>segments := segments b @ [seg]\<rparr>
                in case wakeup b1 h of
                     None \<Rightarrow> None
                   | Some (b2, h2) \<Rightarrow>
                       if 1 < length (segments b2)
                       then Some (b2\<lparr>isAllocating := False\<rparr>, h2, w1\<lparr>pc := Exited\<rparr>)
                       else Some (b2, h2, w1\<lparr>pc := LoopHead\<rparr>)))
      | Exited \<Rightarrow> Some (b, h, w))"

subsection \<open>nextId\<close>

text \<open>
  The first critical section of \<^verbatim>\<open>nextId\<close> (lines 147-172): the fast path, the refill
  trigger, and for a caller that got nothing a fresh channel appended to \<^verbatim>\<open>waiting\<close>. The
  boolean says whether \<^verbatim>\<open>go bizAlloc.fillSegments()\<close> was run.
\<close>

datatype entered = Served int64 | Queued chan

definition nextId_enter :: "BizAlloc \<Rightarrow> Chans \<Rightarrow> (entered \<times> bool \<times> BizAlloc \<times> Chans) option" where
  "nextId_enter b h =
     (case (if leftCount b \<noteq> 0
            then (case popNextId b of None \<Rightarrow> None | Some (i, b1) \<Rightarrow> Some (Some i, b1))
            else Some (None, b)) of
        None \<Rightarrow> None
      | Some (hasId, b1) \<Rightarrow>
          (let spawn = (length (segments b1) \<le> 1 \<and> \<not> isAllocating b1);
               b2 = (if spawn then b1\<lparr>isAllocating := True\<rparr> else b1)
           in case hasId of
                Some i \<Rightarrow> Some (Served i, spawn, b2, h)
              | None \<Rightarrow>
                  (let waitChan = allocated h
                   in Some (Queued waitChan, spawn, b2\<lparr>waiting := waiting b2 @ [waitChan]\<rparr>,
                            h\<lparr>allocated := Suc (allocated h)\<rparr>))))"

text \<open>
  \<^verbatim>\<open>waitTimer = time.NewTimer(2 * time.Second); select { case <-waitChan: case <-waitTimer.C: }\<close>
  Times are Go durations, in nanoseconds. \<open>fired\<close> is when the channel is closed, counted
  from the start of the select, if it is closed at all; the select returns at that moment or
  when the timer expires, whichever comes first.
\<close>

definition second :: nat where
  "second = 1000000000"

definition select_wait :: "nat option \<Rightarrow> nat" where
  "select_wait fired =
     (case fired of
        None \<Rightarrow> 2 * second
      | Some t \<Rightarrow> if t < 2 * second then t else 2 * second)"

text \<open>
  The second critical section (lines 181-187). The result is Go's pair \<^verbatim>\<open>(nextId, err)\<close>.
\<close>

definition nextId_retry :: "BizAlloc \<Rightarrow> ((int64 \<times> error option) \<times> BizAlloc) option" where
  "nextId_retry b =
     (if leftCount b \<noteq> 0
      then (case popNextId b of None \<Rightarrow> None | Some (i, b1) \<Rightarrow> Some ((i, None), b1))
      else Some ((0, Some NoAvailableId), b))"

text \<open>
  One whole call. While the caller sleeps the mutex is free and the other goroutines run:
  \<open>during\<close> is what they make of the allocator and the channels by the time the caller
  holds the mutex again. The events record what the call did after the fast path.
\<close>

datatype event = Enqueued chan | Waited nat | Retried

record Env =
  fired :: "nat option"
  during :: "BizAlloc \<times> Chans \<Rightarrow> BizAlloc \<times> Chans"

definition nextId :: "Env \<Rightarrow> BizAlloc \<Rightarrow> Chans \<Rightarrow>
    ((int64 \<times> error option) \<times> BizAlloc \<times> Chans \<times> bool \<times> event list) option" where
  "nextId env b h =
     (case nextId_enter b h of
        None \<Rightarrow> None
      | Some (Served i, spawn, b1, h1) \<Rightarrow> Some ((i, None), b1, h1, spawn, [])
      | Some (Queued waitChan, spawn, b1, h1) \<Rightarrow>
          (let t = select_wait (fired env);
               (b2, h2) = during env (b1, h1)
           in case nextId_retry b2 of
                None \<Rightarrow> None
              | Some (res, b3) \<Rightarrow> Some (res, b3, h2, spawn, [Enqueued waitChan, Waited t, Retried])))"

section \<open>The registry (Alloc)\<close>

text \<open>The allocator that \<^verbatim>\<open>Alloc.NextId\<close> builds for a tag it has not seen (lines 199-204).\<close>

definition newBizAlloc :: "string \<Rightarrow> BizAlloc" where
  "newBizAlloc tag = \<lparr>bizTag = tag, segments = [], isAllocating = False, waiting = []\<rparr>"

text \<open>Lines 197-207 of \<^verbatim>\<open>Alloc.NextId\<close>: look the tag up, or create and store its allocator.\<close>

definition resolve :: "Alloc \<Rightarrow> string \<Rightarrow> Alloc \<times> BizAlloc" where
  "resolve a tag =
     (case bizMap a tag of
        Some b \<Rightarrow> (a, b)
      | None \<Rightarrow> (a\<lparr>bizMap := (bizMap a)(tag \<mapsto> newBizAlloc tag)\<rparr>, newBizAlloc tag))"


text \<open>
  \<^verbatim>\<open>bizAlloc, _ = alloc.bizMap[bizTag]; if bizAlloc != nil { leftCount = bizAlloc.leftCountWithMutex() }\<close>
  The registry is returned beside the count to show what the call leaves of it.
\<close>

definition Alloc_LeftCount :: "Alloc \<Rightarrow> string \<Rightarrow> int64 \<times> Alloc" where
  "Alloc_LeftCount a tag =
     (case bizMap a tag of
        None \<Rightarrow> (0, a)
      | Some b \<Rightarrow> (leftCount b, a))"

section \<open>One tag allocator and its goroutines\<close>

text \<open>
  The allocator of one tag together with the goroutines that work on it: the refill workers
  started so far and the callers asleep in \<^verbatim>\<open>nextId\<close>, each known by its channel. A run is
  a sequence of atomic steps: a new call enters \<^verbatim>\<open>nextId\<close>; a sleeping caller comes back
  (its channel was closed or its timer expired) and retries; worker number \<open>i\<close> takes a
  step, the store answering \<open>db\<close>.
\<close>

record System =
  alloc :: BizAlloc
  chans :: Chans
  workers :: "Worker list"
  parked :: "chan list"

datatype label = Call | Resume chan | Work nat Store

datatype fault = Panic | NotEnabled

definition init :: "string \<Rightarrow> System" where
  "init tag = \<lparr>alloc = newBizAlloc tag, chans = \<lparr>allocated = 0, closedChans = {}\<rparr>,
               workers = [], parked = []\<rparr>"

definition exec :: "label \<Rightarrow> System \<Rightarrow> fault + System" where
  "exec l s =
     (case l of
        Call \<Rightarrow>
          (case nextId_enter (alloc s) (chans s) of
             None \<Rightarrow> Inl Panic
           | Some (r, spawn, b, h) \<Rightarrow>
               Inr (s\<lparr>alloc := b, chans := h,
                      workers := workers s @ (if spawn then [spawnWorker] else []),
                      parked := parked s @ (case r of Served i \<Rightarrow> [] | Queued c \<Rightarrow> [c])\<rparr>))
      | Resume c \<Rightarrow>
          (if c \<notin> set (parked s) then Inl NotEnabled
           else case nextId_retry (alloc s) of
                  None \<Rightarrow> Inl Panic
                | Some (res, b) \<Rightarrow> Inr (s\<lparr>alloc := b, parked := remove1 c (parked s)\<rparr>))
      | Work i db \<Rightarrow>
          (if length (workers s) \<le> i then Inl NotEnabled
           else if pc (workers s ! i) = Exited then Inl NotEnabled
           else case fill_step db (alloc s) (chans s) (workers s ! i) of
                  None \<Rightarrow> Inl Panic
                | Some (b, h, w) \<Rightarrow> Inr (s\<lparr>alloc := b, chans := h, workers := (workers s)[i := w]\<rparr>)))"

fun run :: "label list \<Rightarrow> System \<Rightarrow> fault + System" where
  "run [] s = Inr s"
| "run (l # ls) s = (case exec l s of Inl f \<Rightarrow> Inl f | Inr s1 \<Rightarrow> run ls s1)"

text \<open>
  A segment is live while its cursor is inside its window; \<open>in_window\<close> is the invariant of
  the data model, \<open>left \<le> left + offset < right\<close>.
\<close>

definition live :: "Segment \<Rightarrow> bool" where
  "live s = (left s + offset s <s right s)"

definition in_window :: "Segment \<Rightarrow> bool" where
  "in_window s = (left s \<le>s left s + offset s \<and> left s + offset s <s right s)"

text \<open>
  Two stores for the examples: one whose transaction goes through and reads back
  \<open>(maxId, step)\<close>, and one that cannot even begin a transaction.
\<close>

definition granting :: "int64 \<Rightarrow> int64 \<Rightarrow> Store" where
  "granting maxId step =
     (\<lambda>tag. \<lparr>beginTx = True, prepareUpdate = True, execUpdate = True, rowsAffected = Some 1,
             prepareSelect = True, scanOk = True, scanned = (maxId, step), commitTx = True\<rparr>)"

definition failing :: Store where
  "failing =
     (\<lambda>tag. \<lparr>beginTx = False, prepareUpdate = False, execUpdate = False, rowsAffected = None,
             prepareSelect = False, scanOk = False, scanned = (0, 0), commitTx = False\<rparr>)"

subsection \<open>Invariants of the runs\<close>

text \<open>
  At most one worker has not left yet, and while there is one the flag \<^verbatim>\<open>isAllocating\<close>
  is set.
\<close>

definition single_flight :: "System \<Rightarrow> bool" where
  "single_flight s =
     ((\<forall>i < length (workers s). \<forall>j < length (workers s).
         pc (workers s ! i) \<noteq> Exited \<and> pc (workers s ! j) \<noteq> Exited \<longrightarrow> i = j)
      \<and> (\<forall>i < length (workers s). pc (workers s ! i) \<noteq> Exited \<longrightarrow> isAllocating (alloc s)))"

text \<open>
  The buffer holds at most two segments, and at most one while a worker is between its look
  at \<^verbatim>\<open>len(segments)\<close> and its append.
\<close>

definition buffer_bound :: "System \<Rightarrow> bool" where
  "buffer_bound s =
     (length (segments (alloc s)) \<le> 2
      \<and> (\<forall>i < length (workers s). pc (workers s ! i) = Fetching \<longrightarrow> length (segments (alloc s)) \<le> 1))"

text \<open>The queued channels are distinct, were made by \<^verbatim>\<open>nextId\<close> and are still open.\<close>

definition queue_open :: "System \<Rightarrow> bool" where
  "queue_open s =
     (distinct (waiting (alloc s))
      \<and> (\<forall>c \<in> set (waiting (alloc s)). c < allocated (chans s) \<and> c \<notin> closedChans (chans s))
      \<and> (\<forall>c \<in> closedChans (chans s). c < allocated (chans s)))"

text \<open>
  A worker that has not left has failed at most three times in a row, and has called the
  store at least as often as its counter says.
\<close>

definition within_budget :: "System \<Rightarrow> bool" where
  "within_budget s =
     (\<forall>i < length (workers s). pc (workers s ! i) \<noteq> Exited \<longrightarrow>
        unat (failTimes (workers s ! i)) \<le> 3
        \<and> unat (failTimes (workers s ! i)) \<le> attempts (workers s ! i))"

definition invariant :: "System \<Rightarrow> bool" where
  "invariant s = (single_flight s \<and> buffer_bound s \<and> queue_open s \<and> within_budget s)"

text \<open>
  Every channel made so far is closed or still queued, and the sleeping callers hold
  channels that were made.
\<close>

definition handles_kept :: "System \<Rightarrow> bool" where
  "handles_kept s =
     ((\<forall>c < allocated (chans s). c \<in> closedChans (chans s) \<or> c \<in> set (waiting (alloc s)))
      \<and> (\<forall>c \<in> set (parked s). c < allocated (chans s)))"

text \<open>
  A step of a run keeps to non-empty windows when it is not a store call, or the store fails,
  or the store grants \<open>(maxId, step)\<close> with \<open>maxId - step <s maxId\<close>: the left bound of
  the new segment is below its right bound, as it is for a positive step when the
  subtraction does not wrap around.
\<close>

definition grants_window :: "string \<Rightarrow> label \<Rightarrow> bool" where
  "grants_window tag l =
     (case l of
        Work i db \<Rightarrow>
          (case Data_NextId db tag of
             (maxId, step, None) \<Rightarrow> maxId - step <s maxId
           | (maxId, step, Some e) \<Rightarrow> True)
      | Call \<Rightarrow> True
      | Resume c \<Rightarrow> True)"

section \<open>Signed 64-bit arithmetic\<close>

text \<open>Below a signed bound the successor does not wrap around.\<close>

lemma sint_succ: "x <s y \<Longrightarrow> sint (x + 1) = sint x + 1" for x y :: int64
proof -
  assume "x <s y"
  then have "sint x < sint y" by (simp add: word_sless_alt)
  moreover have "sint y < 2 ^ 63" using sint_lt [of y] by simp
  moreover have "- (2 ^ 63) \<le> sint x" using sint_ge [of x] by simp
  ultimately have "signed_take_bit 63 (sint x + 1) = sint x + 1"
    by (intro signed_take_bit_int_eq_self) auto
  then show ?thesis by (simp add: sint_word_add)
qed

lemma sless_succ: "x <s y \<Longrightarrow> x <s x + 1" for x y :: int64
  using sint_succ [of x y] by (simp add: word_sless_alt)

lemma sle_succ: "x <s y \<Longrightarrow> x + 1 \<le>s y" for x y :: int64
  using sint_succ [of x y] by (simp add: word_sless_alt word_sle_eq)

lemma reach_right: "x <s y \<Longrightarrow> y \<le>s x + 1 \<Longrightarrow> x + 1 = y" for x y :: int64
  using sle_succ [of x y] by (simp add: signed.order.antisym)

section \<open>Taking identifiers from the buffer\<close>

lemma leftCount_loop_sum:
  "leftCount_loop ss c = c + sum_list (map (\<lambda>s. right s - left s - offset s) ss)"
  by (induction ss arbitrary: c) (simp_all add: add.assoc)

lemma leftCount_sum:
  "leftCount b = sum_list (map (\<lambda>s. right s - left s - offset s) (segments b))"
  by (simp add: leftCount_def leftCount_loop_sum)

lemma popNextId_live_leftCount:
  assumes "segments b = s # rest" and "live s" and "popNextId b = Some (i, b1)"
  shows "leftCount b1 = leftCount b - 1"
proof (cases "right s \<le>s left s + offset s + 1")
  case True
  with assms(2) have "left s + offset s + 1 = right s"
    by (simp add: live_def reach_right)
  then have "right s - left s - offset s = 1"
    by (metis add_diff_cancel_left' diff_diff_eq)
  with assms True show ?thesis
    by (auto simp: popNextId_def leftCount_sum Let_def)
next
  case False
  with assms show ?thesis
    by (auto simp: popNextId_def leftCount_sum Let_def)
qed

lemma popNextId_live_rest:
  assumes "\<forall>s \<in> set (segments b). live s" and "popNextId b = Some (i, b1)"
  shows "\<forall>s \<in> set (segments b1). live s"
  using assms
  by (auto simp: popNextId_def Let_def live_def add.assoc signed.not_le split: list.splits if_splits)

text \<open>
  As long as the front segment has identifiers left, the pops all come from it, whatever is
  appended behind it in between: they succeed, stay inside its window and come out in
  strictly increasing order.
\<close>

lemma pops_between_front:
  assumes "segments b = s # rest" and "live s"
    and "int (length news) \<le> sint (right s) - sint (left s + offset s)"
  shows "\<exists>ids b1. pops_between news b = Some (ids, b1) \<and> length ids = length news
           \<and> (\<forall>x \<in> set ids. left s + offset s \<le>s x \<and> x <s right s)
           \<and> sorted_wrt (<s) ids"
  using assms
proof (induction news arbitrary: b s rest)
  case Nil
  then show ?case by simp
next
  case (Cons new news)
  let ?c = "left s + offset s"
  let ?pre = "b\<lparr>segments := segments b @ new\<rparr>"
  from Cons.prems(1) have f: "segments ?pre = s # (rest @ new)" by simp
  from Cons.prems(2) have c: "?c <s right s" by (simp add: live_def)
  have c1: "sint (?c + 1) = sint ?c + 1" by (rule sint_succ [OF c])
  show ?case
  proof (cases "right s \<le>s ?c + 1")
    case True
    with c have "?c + 1 = right s" by (simp add: reach_right)
    with c1 Cons.prems(3) have "news = []" by simp
    with True Cons.prems(1) c show ?thesis
      by (simp add: popNextId_def Let_def)
  next
    case False
    let ?s = "s\<lparr>offset := offset s + 1\<rparr>"
    let ?b = "?pre\<lparr>segments := ?s # (rest @ new)\<rparr>"
    from False Cons.prems(1) have p: "popNextId ?pre = Some (?c, ?b)"
      by (simp add: popNextId_def Let_def)
    have s1: "segments ?b = ?s # (rest @ new)" by simp
    from False have s2: "live ?s" by (simp add: live_def signed.not_le add.assoc)
    from c1 Cons.prems(3) have s3: "int (length news) \<le> sint (right ?s) - sint (left ?s + offset ?s)"
      by (simp add: add.assoc)
    from Cons.IH [OF s1 s2 s3] obtain ids b1 where q: "pops_between news ?b = Some (ids, b1)"
      and l: "length ids = length news"
      and w: "\<forall>x \<in> set ids. ?c + 1 \<le>s x \<and> x <s right s"
      and srt: "sorted_wrt (<s) ids"
      by (auto simp: add.assoc)
    have "?c <s ?c + 1" by (rule sless_succ [OF c])
    with w have "\<forall>x \<in> set ids. ?c <s x \<and> ?c \<le>s x"
      by (auto simp: word_sless_alt word_sle_eq)
    with p q l w srt c show ?thesis by simp
  qed
qed

lemma pops_between_nothing: "pops_between (replicate n []) b = pops n b"
  by (induction n arbitrary: b) (auto split: option.splits)

text \<open>
  C1. When the front segment is live (\<open>left + offset <s right\<close>), one pop returns
  \<open>left + offset\<close> and adds exactly one to the offset of that segment, and in the same
  operation the segment is dropped from the buffer if and only if the cursor after the
  increment has reached the right bound (\<open>right \<le>s left + (offset + 1)\<close>); the segments
  behind it and the other fields of the allocator stay as they are.
\<close>

theorem popNextId_take:
  assumes "segments b = s # rest" and "live s"
  shows "popNextId b =
           Some (left s + offset s,
                 b\<lparr>segments := (if right s \<le>s left s + (offset s + 1) then rest
                                else s\<lparr>offset := offset s + 1\<rparr> # rest)\<rparr>)"
  using assms by (simp add: popNextId_def Let_def add.assoc)

theorem popNextId_take_witness:
  "popNextId \<lparr>bizTag = ''t'',
              segments = [\<lparr>offset = 1, left = 5, right = 7\<rparr>, \<lparr>offset = 0, left = 7, right = 9\<rparr>],
              isAllocating = False, waiting = []\<rparr>
     = Some (6, \<lparr>bizTag = ''t'', segments = [\<lparr>offset = 0, left = 7, right = 9\<rparr>],
                  isAllocating = False, waiting = []\<rparr>)
   \<and> popNextId \<lparr>bizTag = ''t'',
              segments = [\<lparr>offset = 0, left = 5, right = 7\<rparr>, \<lparr>offset = 0, left = 7, right = 9\<rparr>],
              isAllocating = False, waiting = []\<rparr>
     = Some (5, \<lparr>bizTag = ''t'',
                  segments = [\<lparr>offset = 1, left = 5, right = 7\<rparr>, \<lparr>offset = 0, left = 7, right = 9\<rparr>],
                  isAllocating = False, waiting = []\<rparr>)"
  using popNextId_take [of "\<lparr>bizTag = ''t'',
              segments = [\<lparr>offset = 1, left = 5, right = 7\<rparr>, \<lparr>offset = 0, left = 7, right = 9\<rparr>],
              isAllocating = False, waiting = []\<rparr>" "\<lparr>offset = 1, left = 5, right = 7\<rparr>"
              "[\<lparr>offset = 0, left = 7, right = 9\<rparr>]"]
    popNextId_take [of "\<lparr>bizTag = ''t'',
              segments = [\<lparr>offset = 0, left = 5, right = 7\<rparr>, \<lparr>offset = 0, left = 7, right = 9\<rparr>],
              isAllocating = False, waiting = []\<rparr>" "\<lparr>offset = 0, left = 5, right = 7\<rparr>"
              "[\<lparr>offset = 0, left = 7, right = 9\<rparr>]"]
  by (simp add: live_def)

text \<open>
  C2, as amended. Identifiers taken from one live segment come out strictly increasing.
  Whenever the front
  segment \<open>s\<close> is live and at most as many pops are made as \<open>s\<close> still holds identifiers,
  the pops succeed, all of them served by \<open>s\<close> out of its window, and of any two of the
  identifiers the one produced first is the smaller one (in the signed order of \<^verbatim>\<open>int64\<close>).
  This is so whatever the refill worker appends between the pops.
\<close>

theorem same_segment_monotone:
  assumes "segments b = s # rest" and "live s"
    and "int (length news) \<le> sint (right s) - sint (left s + offset s)"
  shows "\<exists>ids b1. pops_between news b = Some (ids, b1) \<and> length ids = length news
           \<and> (\<forall>x \<in> set ids. left s + offset s \<le>s x \<and> x <s right s)
           \<and> (\<forall>i j. i < j \<and> j < length news \<longrightarrow> ids ! i <s ids ! j)"
proof -
  from pops_between_front [OF assms] obtain ids b1 where "pops_between news b = Some (ids, b1)"
    and "length ids = length news"
    and "\<forall>x \<in> set ids. left s + offset s \<le>s x \<and> x <s right s"
    and "sorted_wrt (<s) ids"
    by blast
  then show ?thesis
    by (auto simp: sorted_wrt_iff_nth_less)
qed

theorem same_segment_monotone_witness:
  "pops_between [[], [\<lparr>offset = 0, left = 8, right = 10\<rparr>], []]
     \<lparr>bizTag = ''t'', segments = [\<lparr>offset = 0, left = 5, right = 8\<rparr>],
        isAllocating = True, waiting = []\<rparr>
     = Some ([5, 6, 7], \<lparr>bizTag = ''t'', segments = [\<lparr>offset = 0, left = 8, right = 10\<rparr>],
                          isAllocating = True, waiting = []\<rparr>)
   \<and> (5 :: int64) <s 6 \<and> (6 :: int64) <s 7 \<and> (5 :: int64) <s 7"
proof -
  let ?s = "\<lparr>offset = 0, left = 5, right = 8\<rparr>"
  let ?b = "\<lparr>bizTag = ''t'', segments = [?s], isAllocating = True, waiting = []\<rparr>"
  let ?news = "[[], [\<lparr>offset = 0, left = 8, right = 10\<rparr>], []]"
  have p: "pops_between ?news ?b
     = Some ([5, 6, 7], \<lparr>bizTag = ''t'', segments = [\<lparr>offset = 0, left = 8, right = 10\<rparr>],
                          isAllocating = True, waiting = []\<rparr>)"
    by (simp add: popNextId_def)
  have "segments ?b = ?s # []" and "live ?s"
    and "int (length ?news) \<le> sint (right ?s) - sint (left ?s + offset ?s)"
    by (simp_all add: live_def)
  from same_segment_monotone [OF this] p
  have h: "\<forall>i j. i < j \<and> j < 3 \<longrightarrow> [5, 6, 7 :: int64] ! i <s [5, 6, 7] ! j"
    by simp
  from h [rule_format, of 0 1] h [rule_format, of 1 2] h [rule_format, of 0 2] p
  show ?thesis by simp
qed

text \<open>
  C2 as stated fails for a segment that is not live when it is first used. When the row of
  the tag holds \<open>max_id = 9223372036854775807\<close> (the largest \<^verbatim>\<open>int64\<close>) and \<open>step = -1\<close>, the
  advance reads back \<open>(9223372036854775806, -1)\<close> and the worker appends the segment with
  \<open>left = 9223372036854775807\<close> and \<open>right = 9223372036854775806\<close>. The queued caller comes
  back, finds \<open>leftCount = -1\<close> and pops \<open>9223372036854775807\<close>; \<^verbatim>\<open>nextId+1\<close> wraps around to
  the smallest \<^verbatim>\<open>int64\<close>, which is below \<open>right\<close>, so the segment stays in front. The next
  call finds \<open>leftCount = -2\<close> and is served \<open>-9223372036854775808\<close> by the same segment:
  the identifier produced first is the larger one.
\<close>

theorem wrapped_segment_not_increasing:
  "run [Call, Work 0 (granting 9223372036854775806 (- 1)), Work 0 (granting 9223372036854775806 (- 1))]
       (init ''t'')
     = Inr \<lparr>alloc = \<lparr>bizTag = ''t'',
                      segments = [\<lparr>offset = 0, left = 9223372036854775807, right = 9223372036854775806\<rparr>],
                      isAllocating = True, waiting = []\<rparr>,
            chans = \<lparr>allocated = 1, closedChans = {0}\<rparr>,
            workers = [\<lparr>pc = LoopHead, failTimes = 0, attempts = 1\<rparr>], parked = [0]\<rparr>
   \<and> \<not> live \<lparr>offset = 0, left = 9223372036854775807, right = 9223372036854775806\<rparr>
   \<and> nextId_retry \<lparr>bizTag = ''t'',
                    segments = [\<lparr>offset = 0, left = 9223372036854775807, right = 9223372036854775806\<rparr>],
                    isAllocating = True, waiting = []\<rparr>
     = Some ((9223372036854775807, None),
             \<lparr>bizTag = ''t'',
              segments = [\<lparr>offset = 1, left = 9223372036854775807, right = 9223372036854775806\<rparr>],
              isAllocating = True, waiting = []\<rparr>)
   \<and> nextId_enter \<lparr>bizTag = ''t'',
                    segments = [\<lparr>offset = 1, left = 9223372036854775807, right = 9223372036854775806\<rparr>],
                    isAllocating = True, waiting = []\<rparr>
                   \<lparr>allocated = 1, closedChans = {0}\<rparr>
     = Some (Served (- 9223372036854775808), False,
             \<lparr>bizTag = ''t'',
              segments = [\<lparr>offset = 2, left = 9223372036854775807, right = 9223372036854775806\<rparr>],
              isAllocating = True, waiting = []\<rparr>,
             \<lparr>allocated = 1, closedChans = {0}\<rparr>)
   \<and> sint (- 9223372036854775808 :: int64) = - 9223372036854775808
   \<and> \<not> ((9223372036854775807 :: int64) <s - 9223372036854775808)"
  by (simp add: exec_def init_def newBizAlloc_def nextId_enter_def nextId_retry_def leftCount_def
      spawnWorker_def fill_step_def newSegment_def Data_NextId_def granting_def wakeup_def
      popNextId_def live_def Let_def word_sless_alt word_sle_eq)

text \<open>
  C3. A successful store advance returns \<open>(maxId, step)\<close> with no error, and the segment
  built from it is the window from \<open>maxId - step\<close> (inclusive) to \<open>maxId\<close> (exclusive) with
  the consumption offset at 0.
\<close>

theorem newSegment_window:
  assumes "Data_NextId db (bizTag b) = (maxId, step, None)"
  shows "newSegment db b = Inr \<lparr>offset = 0, left = maxId - step, right = maxId\<rparr>"
  using assms by (simp add: newSegment_def)

theorem newSegment_window_witness:
  "newSegment (granting 200 100) (newBizAlloc ''t'') = Inr \<lparr>offset = 0, left = 100, right = 200\<rparr>"
  using newSegment_window [of "granting 200 100" "newBizAlloc ''t''" 200 100]
  by (simp add: Data_NextId_def granting_def)

lemma pops_front_closed:
  assumes "segments b = s # rest" and "live s"
    and "int n \<le> sint (right s) - sint (left s + offset s)"
  shows "pops n b =
           Some (map (\<lambda>k. left s + offset s + of_nat k) [0..<n],
                 if n = 0 then b
                 else b\<lparr>segments := (if int n = sint (right s) - sint (left s + offset s) then rest
                                     else s\<lparr>offset := offset s + of_nat n\<rparr> # rest)\<rparr>)"
  using assms
proof (induction n arbitrary: b s)
  case 0
  then show ?case by simp
next
  case (Suc n)
  let ?c = "left s + offset s"
  from Suc.prems(2) have c: "?c <s right s" by (simp add: live_def)
  have c1: "sint (?c + 1) = sint ?c + 1" by (rule sint_succ [OF c])
  show ?case
  proof (cases "right s \<le>s ?c + 1")
    case True
    with c have e: "?c + 1 = right s" by (simp add: reach_right)
    with c1 Suc.prems(3) have n: "n = 0" by simp
    from e c1 have "sint (right s) - sint ?c = 1" by simp
    with n True Suc.prems(1) show ?thesis
      by (simp add: popNextId_def Let_def)
  next
    case False
    let ?s = "s\<lparr>offset := offset s + 1\<rparr>"
    let ?b = "b\<lparr>segments := ?s # rest\<rparr>"
    from False Suc.prems(1) have p: "popNextId b = Some (?c, ?b)"
      by (simp add: popNextId_def Let_def)
    have s1: "segments ?b = ?s # rest" by simp
    from False have s2: "live ?s" by (simp add: live_def signed.not_le add.assoc)
    from c1 Suc.prems(3) have s3: "int n \<le> sint (right ?s) - sint (left ?s + offset ?s)"
      by (simp add: add.assoc)
    have m: "map (\<lambda>k. ?c + of_nat k) [0..<Suc n] = ?c # map (\<lambda>k. ?c + 1 + of_nat k) [0..<n]"
      by (simp add: map_upt_Suc add.assoc add.commute del: upt_Suc)
    from s2 have ne: "sint (right s) - sint ?c \<noteq> 1"
      using c1 by (simp add: live_def word_sless_alt add.assoc)
    have q: "pops n ?b =
           Some (map (\<lambda>k. ?c + 1 + of_nat k) [0..<n],
                 if n = 0 then ?b
                 else ?b\<lparr>segments := (if int n = sint (right s) - sint (?c + 1) then rest
                                     else ?s\<lparr>offset := offset s + 1 + of_nat n\<rparr> # rest)\<rparr>)"
      using Suc.IH [OF s1 s2 s3] by (simp add: add.assoc)
    have st: "(if int n = sint (right s) - sint (?c + 1) then rest
               else ?s\<lparr>offset := offset s + 1 + of_nat n\<rparr> # rest)
            = (if int (Suc n) = sint (right s) - sint ?c then rest
               else s\<lparr>offset := offset s + of_nat (Suc n)\<rparr> # rest)"
      using c1 by (auto simp: add.assoc)
    show ?thesis
    proof (cases "n = 0")
      case True
      with p ne show ?thesis by simp
    next
      case False
      with p q have "pops (Suc n) b =
           Some (?c # map (\<lambda>k. ?c + 1 + of_nat k) [0..<n],
                 b\<lparr>segments := (if int n = sint (right s) - sint (?c + 1) then rest
                                  else ?s\<lparr>offset := offset s + 1 + of_nat n\<rparr> # rest)\<rparr>)"
        by simp
      then show ?thesis
        unfolding st m [symmetric] by simp
    qed
  qed
qed

text \<open>
  What the window means for the callers: a segment granted as \<open>(maxId, step)\<close> with a
  non-empty window serves exactly the identifiers \<open>maxId - step\<close>, \<open>maxId - step + 1\<close>, ...
  up to the last one below \<open>maxId\<close>, in this order, and the pop that serves the last one
  drops the segment.
\<close>

theorem granted_window_served:
  assumes "Data_NextId db (bizTag b) = (maxId, step, None)" and "maxId - step <s maxId"
  shows "\<exists>seg. newSegment db b = Inr seg
       \<and> pops (nat (sint maxId - sint (maxId - step))) (b\<lparr>segments := [seg]\<rparr>)
           = Some (map (\<lambda>k. maxId - step + of_nat k) [0..<nat (sint maxId - sint (maxId - step))],
                   b\<lparr>segments := []\<rparr>)"
proof -
  let ?seg = "\<lparr>offset = 0, left = maxId - step, right = maxId\<rparr>"
  let ?n = "nat (sint maxId - sint (maxId - step))"
  from assms(1) have n: "newSegment db b = Inr ?seg"
    by (simp add: newSegment_def)
  from assms(2) have pos: "0 < sint maxId - sint (maxId - step)"
    by (simp add: word_sless_alt)
  have s1: "segments (b\<lparr>segments := [?seg]\<rparr>) = ?seg # []" by simp
  from assms(2) have s2: "live ?seg" by (simp add: live_def)
  from pos have s3: "int ?n \<le> sint (right ?seg) - sint (left ?seg + offset ?seg)" by simp
  from pos pops_front_closed [OF s1 s2 s3] have
    "pops ?n (b\<lparr>segments := [?seg]\<rparr>)
       = Some (map (\<lambda>k. maxId - step + of_nat k) [0..<?n], b\<lparr>segments := []\<rparr>)"
    by simp
  with n show ?thesis by blast
qed

theorem granted_window_served_witness:
  "newSegment (granting 3 3) (newBizAlloc ''t'') = Inr \<lparr>offset = 0, left = 0, right = 3\<rparr>
   \<and> pops 3 \<lparr>bizTag = ''t'', segments = [\<lparr>offset = 0, left = 0, right = 3\<rparr>],
              isAllocating = False, waiting = []\<rparr>
     = Some ([0, 1, 2], \<lparr>bizTag = ''t'', segments = [], isAllocating = False, waiting = []\<rparr>)"
proof -
  have d: "Data_NextId (granting 3 3) (bizTag (newBizAlloc ''t'')) = (3, 3, None)"
    by (simp add: Data_NextId_def granting_def)
  have w: "(3 :: int64) - 3 <s 3"
    by (simp add: word_sless_alt)
  from granted_window_served [OF d w] obtain seg
    where a: "newSegment (granting 3 3) (newBizAlloc ''t'') = Inr seg"
    by blast
  then have n: "newSegment (granting 3 3) (newBizAlloc ''t'') = Inr \<lparr>offset = 0, left = 0, right = 3\<rparr>"
    by (simp add: newSegment_def d)
  have p: "pops 3 \<lparr>bizTag = ''t'', segments = [\<lparr>offset = 0, left = 0, right = 3\<rparr>],
              isAllocating = False, waiting = []\<rparr>
     = Some ([0, 1, 2], \<lparr>bizTag = ''t'', segments = [], isAllocating = False, waiting = []\<rparr>)"
    by (simp add: eval_nat_numeral popNextId_def word_sle_eq)
  from n p show ?thesis by simp
qed

text \<open>
  C6, as amended. \<open>leftCount\<close> is the sum of \<open>right - left - offset\<close> over the segments
  in the buffer. While every buffered segment is live, each pop takes exactly one off that
  sum; so after \<open>n\<close> identifiers have been served from such a buffer with no refill in
  between, what remains is the count before minus \<open>n\<close> (in \<^verbatim>\<open>int64\<close> arithmetic).
\<close>

theorem remaining_round_trip:
  assumes "\<forall>s \<in> set (segments b). live s" and "pops n b = Some (ids, b1)"
  shows "leftCount b = sum_list (map (\<lambda>s. right s - left s - offset s) (segments b))
       \<and> length ids = n
       \<and> leftCount b1 = leftCount b - of_nat n"
proof -
  have "leftCount b1 = leftCount b - of_nat n \<and> length ids = n \<and> (\<forall>s \<in> set (segments b1). live s)"
    using assms
  proof (induction n arbitrary: b ids)
    case 0
    then show ?case by simp
  next
    case (Suc n)
    from Suc.prems(2) obtain i b2 ids2 where p: "popNextId b = Some (i, b2)"
      and q: "pops n b2 = Some (ids2, b1)" and r: "ids = i # ids2"
      by (auto split: option.splits)
    from p obtain s rest where sr: "segments b = s # rest"
      by (auto simp: popNextId_def split: list.splits)
    with Suc.prems(1) have ls: "live s" by simp
    have lc: "leftCount b2 = leftCount b - 1" by (rule popNextId_live_leftCount [OF sr ls p])
    from Suc.prems(1) p have "\<forall>s \<in> set (segments b2). live s" by (rule popNextId_live_rest)
    from Suc.IH [OF this q] lc r show ?case by simp
  qed
  then show ?thesis by (simp add: leftCount_sum)
qed

theorem remaining_round_trip_witness:
  "leftCount \<lparr>bizTag = ''t'',
              segments = [\<lparr>offset = 0, left = 5, right = 7\<rparr>, \<lparr>offset = 0, left = 7, right = 9\<rparr>],
              isAllocating = False, waiting = []\<rparr> = 4
   \<and> pops 3 \<lparr>bizTag = ''t'',
              segments = [\<lparr>offset = 0, left = 5, right = 7\<rparr>, \<lparr>offset = 0, left = 7, right = 9\<rparr>],
              isAllocating = False, waiting = []\<rparr>
       = Some ([5, 6, 7], \<lparr>bizTag = ''t'', segments = [\<lparr>offset = 1, left = 7, right = 9\<rparr>],
                            isAllocating = False, waiting = []\<rparr>)
   \<and> leftCount \<lparr>bizTag = ''t'', segments = [\<lparr>offset = 1, left = 7, right = 9\<rparr>],
                 isAllocating = False, waiting = []\<rparr> = 4 - 3"
proof -
  let ?b = "\<lparr>bizTag = ''t'',
              segments = [\<lparr>offset = 0, left = 5, right = 7\<rparr>, \<lparr>offset = 0, left = 7, right = 9\<rparr>],
              isAllocating = False, waiting = []\<rparr>"
  let ?b1 = "\<lparr>bizTag = ''t'', segments = [\<lparr>offset = 1, left = 7, right = 9\<rparr>],
              isAllocating = False, waiting = []\<rparr>"
  have p: "pops 3 ?b = Some ([5, 6, 7], ?b1)"
    by (simp add: eval_nat_numeral popNextId_def)
  have l: "\<forall>s \<in> set (segments ?b). live s"
    by (simp add: live_def)
  from remaining_round_trip [OF l p]
  have "leftCount ?b = 4" and "leftCount ?b1 = leftCount ?b - of_nat 3"
    by simp_all
  with p show ?thesis by simp
qed

text \<open>
  C6 as stated fails for a front segment that is not live. After the advance that returned
  \<open>maxId = 90\<close> with \<open>step = -10\<close> the buffer holds \<open>[100, 90)\<close> and \<open>leftCount\<close> is
  \<open>-10\<close>; the pop returns 100 and drops the segment with its whole negative count, which
  leaves 0 and not \<open>-11\<close>.
\<close>

theorem pop_from_retired_segment:
  "run [Call, Work 0 (granting 90 (- 10)), Work 0 (granting 90 (- 10))] (init ''t'')
     = Inr \<lparr>alloc = \<lparr>bizTag = ''t'', segments = [\<lparr>offset = 0, left = 100, right = 90\<rparr>],
                      isAllocating = True, waiting = []\<rparr>,
            chans = \<lparr>allocated = 1, closedChans = {0}\<rparr>,
            workers = [\<lparr>pc = LoopHead, failTimes = 0, attempts = 1\<rparr>], parked = [0]\<rparr>
   \<and> leftCount \<lparr>bizTag = ''t'', segments = [\<lparr>offset = 0, left = 100, right = 90\<rparr>],
                 isAllocating = True, waiting = []\<rparr> = - 10
   \<and> pops 1 \<lparr>bizTag = ''t'', segments = [\<lparr>offset = 0, left = 100, right = 90\<rparr>],
              isAllocating = True, waiting = []\<rparr>
     = Some ([100], \<lparr>bizTag = ''t'', segments = [], isAllocating = True, waiting = []\<rparr>)
   \<and> leftCount \<lparr>bizTag = ''t'', segments = [], isAllocating = True, waiting = []\<rparr> = 0
   \<and> (0 :: int64) \<noteq> - 10 - 1"
  by (simp add: exec_def init_def newBizAlloc_def nextId_enter_def leftCount_def
      spawnWorker_def fill_step_def newSegment_def Data_NextId_def granting_def wakeup_def
      popNextId_def Let_def word_sless_alt word_sle_eq)

section \<open>The critical sections, one by one\<close>

lemma leftCount_nonzero: "leftCount b \<noteq> 0 \<Longrightarrow> segments b \<noteq> []"
  by (auto simp: leftCount_def)

lemma popNextId_effect:
  assumes "popNextId b = Some (i, b1)"
  shows "bizTag b1 = bizTag b \<and> isAllocating b1 = isAllocating b \<and> waiting b1 = waiting b
       \<and> length (segments b1) \<le> length (segments b)"
  using assms by (auto simp: popNextId_def Let_def split: list.splits if_splits)

lemma popNextId_Some: "segments b \<noteq> [] \<Longrightarrow> \<exists>i b1. popNextId b = Some (i, b1)"
  by (auto simp: popNextId_def Let_def split: list.splits)

lemma nextId_enter_effect:
  assumes "nextId_enter b h = Some (r, sp, b1, h1)"
  shows "bizTag b1 = bizTag b \<and> length (segments b1) \<le> length (segments b)
       \<and> sp = (length (segments b1) \<le> 1 \<and> \<not> isAllocating b)
       \<and> isAllocating b1 = (isAllocating b \<or> sp)
       \<and> (case r of
             Served i \<Rightarrow> waiting b1 = waiting b \<and> h1 = h
           | Queued c \<Rightarrow> c = allocated h \<and> waiting b1 = waiting b @ [c]
                          \<and> h1 = h\<lparr>allocated := Suc (allocated h)\<rparr>)"
  using assms
  by (auto simp: nextId_enter_def Let_def dest!: popNextId_effect split: option.splits if_splits)

lemma nextId_enter_Some: "\<exists>r sp b1 h1. nextId_enter b h = Some (r, sp, b1, h1)"
proof (cases "leftCount b = 0")
  case True
  then show ?thesis by (simp add: nextId_enter_def Let_def)
next
  case False
  then obtain i b1 where "popNextId b = Some (i, b1)"
    using popNextId_Some [OF leftCount_nonzero] by blast
  with False show ?thesis by (simp add: nextId_enter_def Let_def)
qed

lemma nextId_retry_effect:
  assumes "nextId_retry b = Some (res, b1)"
  shows "bizTag b1 = bizTag b \<and> isAllocating b1 = isAllocating b \<and> waiting b1 = waiting b
       \<and> length (segments b1) \<le> length (segments b)"
  using assms
  by (auto simp: nextId_retry_def dest!: popNextId_effect split: option.splits if_splits)

lemma nextId_retry_Some: "\<exists>res b1. nextId_retry b = Some (res, b1)"
proof (cases "leftCount b = 0")
  case True
  then show ?thesis by (simp add: nextId_retry_def)
next
  case False
  then obtain i b1 where "popNextId b = Some (i, b1)"
    using popNextId_Some [OF leftCount_nonzero] by blast
  with False show ?thesis by (simp add: nextId_retry_def)
qed

lemma close_all_open:
  "distinct cs \<Longrightarrow> set cs \<inter> cl = {} \<Longrightarrow> close_all cs cl = Some (cl \<union> set cs)"
  by (induction cs arbitrary: cl) auto

lemma wakeup_open:
  assumes "distinct (waiting b)" and "set (waiting b) \<inter> closedChans h = {}"
  shows "wakeup b h = Some (b\<lparr>waiting := []\<rparr>, h\<lparr>closedChans := closedChans h \<union> set (waiting b)\<rparr>)"
  using close_all_open [OF assms] by (simp add: wakeup_def)

lemma small_counter:
  fixes f :: int64
  assumes "unat f \<le> 3"
  shows "f = 0 \<or> f = 1 \<or> f = 2 \<or> f = 3"
proof -
  from assms have "unat f = 0 \<or> unat f = 1 \<or> unat f = 2 \<or> unat f = 3" by arith
  then have "word_of_nat (unat f) = (0::int64) \<or> word_of_nat (unat f) = (1::int64)
      \<or> word_of_nat (unat f) = (2::int64) \<or> word_of_nat (unat f) = (3::int64)"
    by (elim disjE) simp_all
  then show ?thesis by simp
qed

lemma counter_step:
  fixes f :: int64
  assumes "unat f \<le> 3"
  shows "unat (f + 1) = Suc (unat f) \<and> (3 <s f + 1) = (unat f = 3)"
  using small_counter [OF assms] by (elim disjE) (simp_all add: word_sless_alt)

lemma fill_step_LoopHead:
  assumes "pc w = LoopHead"
  shows "fill_step db b h w =
           Some (if length (segments b) \<le> 1 then (b, h, w\<lparr>pc := Fetching\<rparr>)
                 else (b\<lparr>isAllocating := False\<rparr>, h, w\<lparr>pc := Exited\<rparr>))"
  using assms by (simp add: fill_step_def)

lemma fill_step_failure:
  assumes "pc w = Fetching" and "newSegment db b = Inl e"
    and "distinct (waiting b)" and "set (waiting b) \<inter> closedChans h = {}"
  shows "fill_step db b h w =
           Some (if 3 <s failTimes w + 1
                 then (b\<lparr>waiting := [], isAllocating := False\<rparr>,
                       h\<lparr>closedChans := closedChans h \<union> set (waiting b)\<rparr>,
                       w\<lparr>failTimes := failTimes w + 1, attempts := Suc (attempts w), pc := Exited\<rparr>)
                 else (b, h, w\<lparr>failTimes := failTimes w + 1, attempts := Suc (attempts w), pc := LoopHead\<rparr>))"
  using assms wakeup_open [OF assms(3,4)] by (simp add: fill_step_def Let_def)

lemma fill_step_success:
  assumes "pc w = Fetching" and "newSegment db b = Inr seg"
    and "distinct (waiting b)" and "set (waiting b) \<inter> closedChans h = {}"
  shows "fill_step db b h w =
           Some (if 1 < length (segments b @ [seg])
                 then (b\<lparr>segments := segments b @ [seg], waiting := [], isAllocating := False\<rparr>,
                       h\<lparr>closedChans := closedChans h \<union> set (waiting b)\<rparr>,
                       w\<lparr>failTimes := 0, attempts := Suc (attempts w), pc := Exited\<rparr>)
                 else (b\<lparr>segments := segments b @ [seg], waiting := []\<rparr>,
                       h\<lparr>closedChans := closedChans h \<union> set (waiting b)\<rparr>,
                       w\<lparr>failTimes := 0, attempts := Suc (attempts w), pc := LoopHead\<rparr>))"
proof -
  let ?b = "b\<lparr>segments := segments b @ [seg]\<rparr>"
  from assms(3,4) have "distinct (waiting ?b)" and "set (waiting ?b) \<inter> closedChans h = {}"
    by simp_all
  from wakeup_open [OF this] assms(1,2) show ?thesis
    by (simp add: fill_step_def Let_def)
qed

lemma exec_Call_invariant:
  assumes "exec Call s = Inr s1" and "invariant s"
  shows "invariant s1"
proof -
  from assms(1) obtain r sp b h where e: "nextId_enter (alloc s) (chans s) = Some (r, sp, b, h)"
    and s1: "s1 = s\<lparr>alloc := b, chans := h,
                     workers := workers s @ (if sp then [spawnWorker] else []),
                     parked := parked s @ (case r of Served i \<Rightarrow> [] | Queued c \<Rightarrow> [c])\<rparr>"
    by (auto simp: exec_def split: option.splits)
  note eff = nextId_enter_effect [OF e]
  from assms(2) have sf: "single_flight s" and bb: "buffer_bound s" and qo: "queue_open s"
    and wb: "within_budget s"
    by (simp_all add: invariant_def)
  have "single_flight s1"
    using sf eff unfolding single_flight_def s1
    by (auto simp: nth_append less_Suc_eq spawnWorker_def)
  moreover have "buffer_bound s1"
    using bb eff unfolding buffer_bound_def s1
    by (auto simp: nth_append less_Suc_eq spawnWorker_def)
  moreover have "queue_open s1"
    using qo eff unfolding queue_open_def s1
    by (cases r) (auto simp: less_Suc_eq)
  moreover have "within_budget s1"
    using wb unfolding within_budget_def s1
    by (auto simp: nth_append less_Suc_eq spawnWorker_def)
  ultimately show ?thesis by (simp add: invariant_def)
qed

lemma exec_Resume_invariant:
  assumes "exec (Resume c) s = Inr s1" and "invariant s"
  shows "invariant s1"
proof -
  from assms(1) obtain res b where e: "nextId_retry (alloc s) = Some (res, b)"
    and s1: "s1 = s\<lparr>alloc := b, parked := remove1 c (parked s)\<rparr>"
    by (auto simp: exec_def split: option.splits if_splits)
  note eff = nextId_retry_effect [OF e]
  from assms(2) eff show ?thesis
    unfolding invariant_def single_flight_def buffer_bound_def queue_open_def within_budget_def s1
    by auto
qed

lemma worker_update_invariant:
  assumes inv: "invariant s" and i: "i < length (workers s)" and a: "pc (workers s ! i) \<noteq> Exited"
    and s1: "s1 = s\<lparr>alloc := b, chans := h, workers := (workers s)[i := w]\<rparr>"
    and flag: "pc w \<noteq> Exited \<longrightarrow> isAllocating b"
    and len: "length (segments b) \<le> 2" and len1: "pc w = Fetching \<longrightarrow> length (segments b) \<le> 1"
    and bud: "pc w \<noteq> Exited \<longrightarrow> unat (failTimes w) \<le> 3 \<and> unat (failTimes w) \<le> attempts w"
    and qo: "distinct (waiting b)"
      "\<forall>c \<in> set (waiting b). c < allocated h \<and> c \<notin> closedChans h"
      "\<forall>c \<in> closedChans h. c < allocated h"
  shows "invariant s1"
proof -
  from inv have sf: "single_flight s" and wb: "within_budget s"
    by (simp_all add: invariant_def)
  from sf i a have only: "\<forall>j < length (workers s). j \<noteq> i \<longrightarrow> pc (workers s ! j) = Exited"
    unfolding single_flight_def by blast
  have "single_flight s1"
    using only flag i unfolding single_flight_def s1
    by (auto simp: nth_list_update)
  moreover have "buffer_bound s1"
    using only len len1 i unfolding buffer_bound_def s1
    by (auto simp: nth_list_update)
  moreover have "within_budget s1"
    using only bud i unfolding within_budget_def s1
    by (auto simp: nth_list_update)
  moreover have "queue_open s1"
    using qo unfolding queue_open_def s1 by simp
  ultimately show ?thesis by (simp add: invariant_def)
qed

lemma exec_Work_invariant:
  assumes "exec (Work i db) s = Inr s1" and "invariant s"
  shows "invariant s1"
proof -
  let ?w = "workers s ! i"
  let ?b = "alloc s"
  let ?h = "chans s"
  from assms(1) obtain b h w where i: "i < length (workers s)" and a: "pc ?w \<noteq> Exited"
    and e: "fill_step db ?b ?h ?w = Some (b, h, w)"
    and s1: "s1 = s\<lparr>alloc := b, chans := h, workers := (workers s)[i := w]\<rparr>"
    by (auto simp: exec_def split: option.splits if_splits)
  from assms(2) have sf: "single_flight s" and bb: "buffer_bound s" and qo: "queue_open s"
    and wb: "within_budget s"
    by (simp_all add: invariant_def)
  from sf i a have fl: "isAllocating ?b"
    unfolding single_flight_def by blast
  from bb have l2: "length (segments ?b) \<le> 2"
    unfolding buffer_bound_def by blast
  from qo have d: "distinct (waiting ?b)"
    and o: "set (waiting ?b) \<inter> closedChans ?h = {}"
    and q2: "\<forall>c \<in> set (waiting ?b). c < allocated ?h \<and> c \<notin> closedChans ?h"
    and q3: "\<forall>c \<in> closedChans ?h. c < allocated ?h"
    unfolding queue_open_def by auto
  from wb i a have f3: "unat (failTimes ?w) \<le> 3" and fa: "unat (failTimes ?w) \<le> attempts ?w"
    unfolding within_budget_def by auto
  note cs = counter_step [OF f3]
  note upd = worker_update_invariant [OF assms(2) i a s1]
  show ?thesis
  proof (cases "pc ?w")
    case LoopHead
    show ?thesis
    proof (cases "length (segments ?b) \<le> 1")
      case True
      with e LoopHead have "b = ?b" "h = ?h" "w = ?w\<lparr>pc := Fetching\<rparr>"
        by (simp_all add: fill_step_LoopHead)
      with True fl l2 f3 fa d q2 q3 show ?thesis
        by (intro upd) simp_all
    next
      case False
      with e LoopHead have "b = ?b\<lparr>isAllocating := False\<rparr>" "h = ?h" "w = ?w\<lparr>pc := Exited\<rparr>"
        by (simp_all add: fill_step_LoopHead)
      with l2 d q2 q3 show ?thesis
        by (intro upd) simp_all
    qed
  next
    case Fetching
    with bb i have l1: "length (segments ?b) \<le> 1"
      unfolding buffer_bound_def by auto
    show ?thesis
    proof (cases "newSegment db ?b")
      case (Inl err)
      note st = fill_step_failure [OF Fetching Inl d o]
      show ?thesis
      proof (cases "3 <s failTimes ?w + 1")
        case True
        with e st have "b = ?b\<lparr>waiting := [], isAllocating := False\<rparr>"
          "h = ?h\<lparr>closedChans := closedChans ?h \<union> set (waiting ?b)\<rparr>"
          "pc w = Exited"
          by auto
        with l2 q2 q3 show ?thesis
          by (intro upd) auto
      next
        case False
        with e st have "b = ?b" "h = ?h"
          "w = ?w\<lparr>failTimes := failTimes ?w + 1, attempts := Suc (attempts ?w), pc := LoopHead\<rparr>"
          by simp_all
        with False fl l2 f3 fa cs d q2 q3 show ?thesis
          by (intro upd) auto
      qed
    next
      case (Inr seg)
      note st = fill_step_success [OF Fetching Inr d o]
      show ?thesis
      proof (cases "1 < length (segments ?b @ [seg])")
        case True
        with e st have "b = ?b\<lparr>segments := segments ?b @ [seg], waiting := [], isAllocating := False\<rparr>"
          "h = ?h\<lparr>closedChans := closedChans ?h \<union> set (waiting ?b)\<rparr>"
          "pc w = Exited"
          by auto
        with l1 q2 q3 show ?thesis
          by (intro upd) auto
      next
        case False
        with e st have "b = ?b\<lparr>segments := segments ?b @ [seg], waiting := []\<rparr>"
          "h = ?h\<lparr>closedChans := closedChans ?h \<union> set (waiting ?b)\<rparr>"
          "w = ?w\<lparr>failTimes := 0, attempts := Suc (attempts ?w), pc := LoopHead\<rparr>"
          by simp_all
        with False fl l1 q2 q3 show ?thesis
          by (intro upd) auto
      qed
    qed
  next
    case Exited
    with a show ?thesis by simp
  qed
qed

lemma exec_invariant: "exec l s = Inr s1 \<Longrightarrow> invariant s \<Longrightarrow> invariant s1"
  by (cases l) (auto intro: exec_Call_invariant exec_Resume_invariant exec_Work_invariant)

lemma init_invariant: "invariant (init tag)"
  by (simp add: invariant_def single_flight_def buffer_bound_def queue_open_def within_budget_def
      init_def newBizAlloc_def)

lemma run_invariant: "run ls s = Inr s1 \<Longrightarrow> invariant s \<Longrightarrow> invariant s1"
proof (induction ls arbitrary: s)
  case Nil
  then show ?case by simp
next
  case (Cons l ls)
  from Cons.prems(1) obtain s2 where e: "exec l s = Inr s2" and r: "run ls s2 = Inr s1"
    by (auto split: sum.splits)
  from exec_invariant [OF e Cons.prems(2)] Cons.IH [OF r] show ?case by simp
qed

lemma popNextId_in_window:
  assumes "\<forall>s \<in> set (segments b). in_window s" and "popNextId b = Some (i, b1)"
  shows "\<forall>s \<in> set (segments b1). in_window s"
proof -
  from assms(2) obtain s rest where sr: "segments b = s # rest"
    by (auto simp: popNextId_def split: list.splits)
  let ?c = "left s + offset s"
  from assms(1) sr have l: "left s \<le>s ?c" and c: "?c <s right s" and r: "\<forall>s \<in> set rest. in_window s"
    by (simp_all add: in_window_def)
  from l sless_succ [OF c] have "left s \<le>s ?c + 1"
    by (simp add: word_sle_eq word_sless_alt)
  with assms(2) sr r show ?thesis
    by (auto simp: popNextId_def Let_def in_window_def add.assoc signed.not_le split: if_splits)
qed

lemma fill_step_segments:
  assumes "fill_step db b h w = Some (b1, h1, w1)"
  shows "bizTag b1 = bizTag b
       \<and> (segments b1 = segments b \<or> (\<exists>seg. newSegment db b = Inr seg \<and> segments b1 = segments b @ [seg]))"
  using assms
  by (auto simp: fill_step_def wakeup_def Let_def split: place.splits sum.splits option.splits if_splits)

section \<open>Runs of the allocator\<close>

text \<open>
  C4. The buffer never holds more than two segments. It starts empty; a call of \<^verbatim>\<open>nextId\<close>
  only takes segments off the front; at most one refill worker is alive at a time, and it
  appends one segment only after it has seen at most one in the buffer, which is still so
  when it appends because in between the callers can only remove. So in every state a run
  can reach from the fresh allocator the length is between 0 and 2.
\<close>

theorem buffer_at_most_two:
  assumes "run ls (init tag) = Inr s"
  shows "segments (alloc (init tag)) = []
       \<and> length (segments (alloc s)) \<le> 2
       \<and> (\<forall>i < length (workers s). pc (workers s ! i) = Fetching \<longrightarrow> length (segments (alloc s)) \<le> 1)
       \<and> (\<forall>i < length (workers s). \<forall>j < length (workers s).
             pc (workers s ! i) \<noteq> Exited \<and> pc (workers s ! j) \<noteq> Exited \<longrightarrow> i = j)"
proof -
  from run_invariant [OF assms init_invariant] have "buffer_bound s" and "single_flight s"
    by (simp_all add: invariant_def)
  then show ?thesis
    unfolding buffer_bound_def single_flight_def by (simp add: init_def newBizAlloc_def)
qed

theorem buffer_at_most_two_witness:
  "run [Call, Work 0 (granting 100 100), Work 0 (granting 100 100),
        Work 0 (granting 200 100), Work 0 (granting 200 100)] (init ''t'')
     = Inr \<lparr>alloc = \<lparr>bizTag = ''t'',
                      segments = [\<lparr>offset = 0, left = 0, right = 100\<rparr>,
                                  \<lparr>offset = 0, left = 100, right = 200\<rparr>],
                      isAllocating = False, waiting = []\<rparr>,
            chans = \<lparr>allocated = 1, closedChans = {0}\<rparr>,
            workers = [\<lparr>pc = Exited, failTimes = 0, attempts = 2\<rparr>], parked = [0]\<rparr>
   \<and> length [\<lparr>offset = 0, left = 0, right = 100\<rparr>, \<lparr>offset = 0, left = 100, right = (200 :: int64)\<rparr>] \<le> 2"
proof -
  let ?s = "\<lparr>alloc = \<lparr>bizTag = ''t'',
                      segments = [\<lparr>offset = 0, left = 0, right = 100\<rparr>,
                                  \<lparr>offset = 0, left = 100, right = 200\<rparr>],
                      isAllocating = False, waiting = []\<rparr>,
            chans = \<lparr>allocated = 1, closedChans = {0}\<rparr>,
            workers = [\<lparr>pc = Exited, failTimes = 0, attempts = 2\<rparr>], parked = [0]\<rparr>"
  have r: "run [Call, Work 0 (granting 100 100), Work 0 (granting 100 100),
        Work 0 (granting 200 100), Work 0 (granting 200 100)] (init ''t'') = Inr ?s"
    by (simp add: exec_def init_def newBizAlloc_def nextId_enter_def leftCount_def spawnWorker_def
      fill_step_def newSegment_def Data_NextId_def granting_def wakeup_def Let_def)
  from buffer_at_most_two [OF r] have "length (segments (alloc ?s)) \<le> 2" by blast
  with r show ?thesis by simp
qed

text \<open>
  C8. The worker counts its consecutive failures: a failed store advance adds one to
  \<open>failTimes\<close>, a successful one sets it back to zero. When the counter exceeds 3, which
  happens at the fourth failure in a row, the worker closes every queued channel, empties the
  queue, clears \<^verbatim>\<open>isAllocating\<close> and leaves. Whenever a worker leaves, the flag is cleared and
  either the buffer holds at least two segments or the worker has called the store at least
  four times. This holds for every worker of every reachable state and every answer \<open>db\<close>
  of the store, and the step never panics.
\<close>

theorem refill_failure_budget:
  assumes "run ls (init tag) = Inr s" and "i < length (workers s)" and "pc (workers s ! i) \<noteq> Exited"
  shows "\<exists>b h w. fill_step db (alloc s) (chans s) (workers s ! i) = Some (b, h, w)
       \<and> (pc (workers s ! i) = Fetching \<longrightarrow>
            attempts w = Suc (attempts (workers s ! i))
            \<and> (case newSegment db (alloc s) of
                 Inl e \<Rightarrow>
                   failTimes w = failTimes (workers s ! i) + 1
                   \<and> (if 3 <s failTimes w
                      then failTimes w = 4 \<and> pc w = Exited \<and> \<not> isAllocating b \<and> waiting b = []
                           \<and> set (waiting (alloc s)) \<subseteq> closedChans h
                      else pc w = LoopHead \<and> b = alloc s \<and> h = chans s)
               | Inr seg \<Rightarrow>
                   failTimes w = 0 \<and> segments b = segments (alloc s) @ [seg]))
       \<and> (pc w = Exited \<longrightarrow>
            \<not> isAllocating b \<and> (2 \<le> length (segments b) \<or> 4 \<le> attempts w))"
proof -
  let ?w = "workers s ! i"
  let ?b = "alloc s"
  let ?h = "chans s"
  from run_invariant [OF assms(1) init_invariant]
  have qo: "queue_open s" and wb: "within_budget s"
    by (simp_all add: invariant_def)
  from qo have d: "distinct (waiting ?b)"
    and o: "set (waiting ?b) \<inter> closedChans ?h = {}"
    unfolding queue_open_def by auto
  from wb assms(2,3) have f3: "unat (failTimes ?w) \<le> 3" and fa: "unat (failTimes ?w) \<le> attempts ?w"
    unfolding within_budget_def by auto
  note cs = counter_step [OF f3]
  show ?thesis
  proof (cases "pc ?w")
    case LoopHead
    then show ?thesis
      by (simp add: fill_step_LoopHead)
  next
    case Fetching
    show ?thesis
    proof (cases "newSegment db ?b")
      case (Inl err)
      have four: "3 <s failTimes ?w + 1 \<Longrightarrow> failTimes ?w + 1 = 4 \<and> 4 \<le> Suc (attempts ?w)"
        using cs fa small_counter [OF f3] by auto
      from four show ?thesis
        by (simp add: fill_step_failure [OF Fetching Inl d o] Fetching Inl)
    next
      case (Inr seg)
      have "segments ?b \<noteq> [] \<Longrightarrow> Suc 0 \<le> length (segments ?b)"
        by (cases "segments ?b") simp_all
      with Inr show ?thesis
        by (simp add: fill_step_success [OF Fetching Inr d o] Fetching)
    qed
  next
    case Exited
    with assms(3) show ?thesis by simp
  qed
qed

theorem refill_failure_budget_witness:
  "run [Call, Work 0 failing, Work 0 failing, Work 0 failing, Work 0 failing,
        Work 0 failing, Work 0 failing, Work 0 failing] (init ''t'')
     = Inr \<lparr>alloc = \<lparr>bizTag = ''t'', segments = [], isAllocating = True, waiting = [0]\<rparr>,
            chans = \<lparr>allocated = 1, closedChans = {}\<rparr>,
            workers = [\<lparr>pc = Fetching, failTimes = 3, attempts = 3\<rparr>], parked = [0]\<rparr>
   \<and> fill_step failing \<lparr>bizTag = ''t'', segments = [], isAllocating = True, waiting = [0]\<rparr>
         \<lparr>allocated = 1, closedChans = {}\<rparr> \<lparr>pc = Fetching, failTimes = 3, attempts = 3\<rparr>
     = Some (\<lparr>bizTag = ''t'', segments = [], isAllocating = False, waiting = []\<rparr>,
             \<lparr>allocated = 1, closedChans = {0}\<rparr>, \<lparr>pc = Exited, failTimes = 4, attempts = 4\<rparr>)"
proof -
  let ?b = "\<lparr>bizTag = ''t'', segments = [], isAllocating = True, waiting = [0]\<rparr>"
  let ?h = "\<lparr>allocated = 1, closedChans = {}\<rparr>"
  let ?w = "\<lparr>pc = Fetching, failTimes = 3, attempts = 3\<rparr>"
  let ?s = "\<lparr>alloc = ?b, chans = ?h, workers = [?w], parked = [0]\<rparr>"
  have r: "run [Call, Work 0 failing, Work 0 failing, Work 0 failing, Work 0 failing,
        Work 0 failing, Work 0 failing, Work 0 failing] (init ''t'') = Inr ?s"
    by (simp add: exec_def init_def newBizAlloc_def nextId_enter_def leftCount_def spawnWorker_def
      fill_step_def newSegment_def Data_NextId_def failing_def wakeup_def Let_def word_sless_alt)
  have n: "newSegment failing ?b = Inl StoreError"
    by (simp add: newSegment_def Data_NextId_def failing_def)
  have i0: "0 < length (workers ?s)" and p0: "pc (workers ?s ! 0) \<noteq> Exited"
    by simp_all
  from refill_failure_budget [OF r i0 p0, of failing]
  obtain b h w where e: "fill_step failing (alloc ?s) (chans ?s) (workers ?s ! 0) = Some (b, h, w)"
    and x: "pc w = Exited \<longrightarrow> \<not> isAllocating b \<and> (2 \<le> length (segments b) \<or> 4 \<le> attempts w)"
    by blast
  have f: "fill_step failing ?b ?h ?w
     = Some (\<lparr>bizTag = ''t'', segments = [], isAllocating = False, waiting = []\<rparr>,
             \<lparr>allocated = 1, closedChans = {0}\<rparr>, \<lparr>pc = Exited, failTimes = 4, attempts = 4\<rparr>)"
    by (simp add: fill_step_def n wakeup_def word_sless_alt)
  with e x have "4 \<le> attempts \<lparr>pc = Exited, failTimes = 4 :: int64, attempts = 4\<rparr>"
    by auto
  with r f show ?thesis by simp
qed

lemma fill_step_Some:
  assumes "distinct (waiting b)" and "set (waiting b) \<inter> closedChans h = {}"
  shows "\<exists>b1 h1 w1. fill_step db b h w = Some (b1, h1, w1)"
proof (cases "pc w")
  case LoopHead
  then show ?thesis by (simp add: fill_step_LoopHead)
next
  case Fetching
  show ?thesis
  proof (cases "newSegment db b")
    case (Inl e)
    show ?thesis by (simp add: fill_step_failure [OF Fetching Inl assms])
  next
    case (Inr seg)
    show ?thesis by (simp add: fill_step_success [OF Fetching Inr assms])
  qed
next
  case Exited
  then show ?thesis by (simp add: fill_step_def)
qed

lemma exec_no_panic:
  assumes "invariant s"
  shows "exec l s \<noteq> Inl Panic"
proof (cases l)
  case Call
  with nextId_enter_Some [of "alloc s" "chans s"] show ?thesis
    by (auto simp: exec_def)
next
  case (Resume c)
  with nextId_retry_Some [of "alloc s"] show ?thesis
    by (auto simp: exec_def)
next
  case (Work i db)
  from assms have "distinct (waiting (alloc s))"
    and "set (waiting (alloc s)) \<inter> closedChans (chans s) = {}"
    by (auto simp: invariant_def queue_open_def)
  from fill_step_Some [OF this, of db "workers s ! i"] Work show ?thesis
    by (auto simp: exec_def)
qed

lemma run_no_panic:
  assumes "invariant s"
  shows "run ls s \<noteq> Inl Panic"
  using assms
proof (induction ls arbitrary: s)
  case Nil
  then show ?case by simp
next
  case (Cons l ls)
  show ?case
  proof (cases "exec l s")
    case (Inl f)
    with exec_no_panic [OF Cons.prems, of l] show ?thesis by auto
  next
    case (Inr s1)
    from exec_invariant [OF Inr Cons.prems] have "invariant s1" .
    from Cons.IH [OF this] Inr show ?thesis by simp
  qed
qed

text \<open>
  No run panics: \<^verbatim>\<open>popNextId\<close> is only called when \<open>leftCount \<noteq> 0\<close>, which needs a
  segment in the buffer, and \<^verbatim>\<open>wakeup\<close> never meets a channel that is closed already.
\<close>

theorem runs_never_panic: "run ls (init tag) \<noteq> Inl Panic"
  by (rule run_no_panic [OF init_invariant])

theorem runs_never_panic_witness:
  "run [Call, Work 0 failing, Work 0 failing, Resume 0, Call] (init ''t'') \<noteq> Inl Panic
   \<and> run [Call, Work 0 failing, Work 0 failing, Resume 0, Call] (init ''t'')
     = Inr \<lparr>alloc = \<lparr>bizTag = ''t'', segments = [], isAllocating = True, waiting = [0, 1]\<rparr>,
            chans = \<lparr>allocated = 2, closedChans = {}\<rparr>,
            workers = [\<lparr>pc = LoopHead, failTimes = 1, attempts = 1\<rparr>], parked = [1]\<rparr>"
proof -
  have "run [Call, Work 0 failing, Work 0 failing, Resume 0, Call] (init ''t'')
     = Inr \<lparr>alloc = \<lparr>bizTag = ''t'', segments = [], isAllocating = True, waiting = [0, 1]\<rparr>,
            chans = \<lparr>allocated = 2, closedChans = {}\<rparr>,
            workers = [\<lparr>pc = LoopHead, failTimes = 1, attempts = 1\<rparr>], parked = [1]\<rparr>"
    by (simp add: exec_def init_def newBizAlloc_def nextId_enter_def nextId_retry_def leftCount_def
        spawnWorker_def fill_step_def newSegment_def Data_NextId_def failing_def wakeup_def
        Let_def word_sless_alt)
  with runs_never_panic [of "[Call, Work 0 failing, Work 0 failing, Resume 0, Call]" "''t''"]
  show ?thesis by blast
qed

lemma close_all_Some: "close_all cs cl = Some x \<Longrightarrow> x = cl \<union> set cs"
  by (induction cs arbitrary: cl) (auto split: if_splits)

lemma wakeup_Some:
  assumes "wakeup b h = Some (b1, h1)"
  shows "b1 = b\<lparr>waiting := []\<rparr> \<and> h1 = h\<lparr>closedChans := closedChans h \<union> set (waiting b)\<rparr>"
  using assms by (auto simp: wakeup_def dest: close_all_Some split: option.splits)

lemma fill_step_chans:
  assumes "fill_step db b h w = Some (b1, h1, w1)"
  shows "allocated h1 = allocated h
       \<and> ((closedChans h1 = closedChans h \<and> waiting b1 = waiting b)
          \<or> (closedChans h1 = closedChans h \<union> set (waiting b) \<and> waiting b1 = []))"
  using assms
  by (auto simp: fill_step_def Let_def dest!: wakeup_Some
      split: place.splits sum.splits option.splits if_splits)

lemma exec_handles_kept:
  assumes "exec l s = Inr s1" and "invariant s" and "handles_kept s"
  shows "handles_kept s1"
proof (cases l)
  case Call
  with assms(1) obtain r sp b h where e: "nextId_enter (alloc s) (chans s) = Some (r, sp, b, h)"
    and s1: "alloc s1 = b" "chans s1 = h"
      "parked s1 = parked s @ (case r of Served i \<Rightarrow> [] | Queued c \<Rightarrow> [c])"
    by (auto simp: exec_def split: option.splits)
  from nextId_enter_effect [OF e] assms(3) show ?thesis
    unfolding handles_kept_def s1 by (cases r) (auto simp: less_Suc_eq)
next
  case (Resume c)
  with assms(1) obtain res b where e: "nextId_retry (alloc s) = Some (res, b)"
    and s1: "alloc s1 = b" "chans s1 = chans s" "parked s1 = remove1 c (parked s)"
    by (auto simp: exec_def split: option.splits if_splits)
  from nextId_retry_effect [OF e] assms(3) show ?thesis
    unfolding handles_kept_def s1 by (auto dest: notin_set_remove1)
next
  case (Work i db)
  with assms(1) obtain b h w where e: "fill_step db (alloc s) (chans s) (workers s ! i) = Some (b, h, w)"
    and s1: "alloc s1 = b" "chans s1 = h" "parked s1 = parked s"
    by (auto simp: exec_def split: option.splits if_splits)
  from fill_step_chans [OF e] assms(3) show ?thesis
    unfolding handles_kept_def s1 by auto
qed

lemma run_handles_kept:
  assumes "run ls s = Inr s1" and "invariant s" and "handles_kept s"
  shows "handles_kept s1"
  using assms
proof (induction ls arbitrary: s)
  case Nil
  then show ?case by simp
next
  case (Cons l ls)
  from Cons.prems(1) obtain s2 where e: "exec l s = Inr s2" and r: "run ls s2 = Inr s1"
    by (auto split: sum.splits)
  from Cons.IH [OF r exec_invariant [OF e Cons.prems(2)] exec_handles_kept [OF e Cons.prems(2,3)]]
  show ?case .
qed

text \<open>
  No wakeup handle is lost: the channel of every caller asleep in \<^verbatim>\<open>nextId\<close> is either
  still in the queue, where the next \<^verbatim>\<open>wakeup\<close> will close it, or closed already, and never
  both.
\<close>

theorem no_handle_lost:
  assumes "run ls (init tag) = Inr s"
  shows "\<forall>c \<in> set (parked s).
           (c \<in> set (waiting (alloc s)) \<or> c \<in> closedChans (chans s))
           \<and> \<not> (c \<in> set (waiting (alloc s)) \<and> c \<in> closedChans (chans s))"
proof -
  have "handles_kept (init tag)"
    by (simp add: handles_kept_def init_def newBizAlloc_def)
  from run_handles_kept [OF assms init_invariant this] have "handles_kept s" .
  moreover from run_invariant [OF assms init_invariant] have "queue_open s"
    by (simp add: invariant_def)
  ultimately show ?thesis
    unfolding handles_kept_def queue_open_def by blast
qed

theorem no_handle_lost_witness:
  "run [Call, Call, Work 0 failing, Work 0 (granting 100 100), Call] (init ''t'')
     = Inr \<lparr>alloc = \<lparr>bizTag = ''t'', segments = [\<lparr>offset = 1, left = 0, right = 100\<rparr>],
                      isAllocating = True, waiting = []\<rparr>,
            chans = \<lparr>allocated = 2, closedChans = {0, 1}\<rparr>,
            workers = [\<lparr>pc = LoopHead, failTimes = 0, attempts = 1\<rparr>], parked = [0, 1]\<rparr>
   \<and> (0 :: nat) \<in> {0, 1} \<and> (1 :: nat) \<in> {0, 1}"
proof -
  let ?s = "\<lparr>alloc = \<lparr>bizTag = ''t'', segments = [\<lparr>offset = 1, left = 0, right = 100\<rparr>],
                      isAllocating = True, waiting = []\<rparr>,
            chans = \<lparr>allocated = 2, closedChans = {0, 1}\<rparr>,
            workers = [\<lparr>pc = LoopHead, failTimes = 0, attempts = 1\<rparr>], parked = [0, 1]\<rparr>"
  have r: "run [Call, Call, Work 0 failing, Work 0 (granting 100 100), Call] (init ''t'') = Inr ?s"
    by (simp add: exec_def init_def newBizAlloc_def nextId_enter_def nextId_retry_def leftCount_def
        spawnWorker_def fill_step_def newSegment_def Data_NextId_def failing_def granting_def
        wakeup_def popNextId_def Let_def word_sless_alt word_sle_eq insert_commute)
  from no_handle_lost [OF r] have "(0 :: nat) \<in> {0, 1} \<and> (1 :: nat) \<in> {0, 1}"
    by simp
  with r show ?thesis by simp
qed

section \<open>Segments and their windows\<close>

lemma nextId_enter_segments:
  assumes "nextId_enter b h = Some (r, sp, b1, h1)"
  shows "segments b1 = segments b \<or> (\<exists>i b2. popNextId b = Some (i, b2) \<and> segments b1 = segments b2)"
  using assms by (auto simp: nextId_enter_def Let_def split: option.splits if_splits)

lemma nextId_retry_segments:
  assumes "nextId_retry b = Some (res, b1)"
  shows "segments b1 = segments b \<or> (\<exists>i b2. popNextId b = Some (i, b2) \<and> segments b1 = segments b2)"
  using assms by (auto simp: nextId_retry_def split: option.splits if_splits)

lemma exec_in_window:
  assumes "exec l s = Inr s1" and "grants_window (bizTag (alloc s)) l"
    and "\<forall>seg \<in> set (segments (alloc s)). in_window seg"
  shows "bizTag (alloc s1) = bizTag (alloc s) \<and> (\<forall>seg \<in> set (segments (alloc s1)). in_window seg)"
proof (cases l)
  case Call
  with assms(1) obtain r sp b h where e: "nextId_enter (alloc s) (chans s) = Some (r, sp, b, h)"
    and s1: "alloc s1 = b"
    by (auto simp: exec_def split: option.splits)
  from nextId_enter_segments [OF e] assms(3) nextId_enter_effect [OF e]
  have "bizTag b = bizTag (alloc s) \<and> (\<forall>seg \<in> set (segments b). in_window seg)"
    by (auto dest: popNextId_in_window)
  with s1 show ?thesis by simp
next
  case (Resume c)
  with assms(1) obtain res b where e: "nextId_retry (alloc s) = Some (res, b)"
    and s1: "alloc s1 = b"
    by (auto simp: exec_def split: option.splits if_splits)
  from nextId_retry_segments [OF e] assms(3) nextId_retry_effect [OF e]
  have "bizTag b = bizTag (alloc s) \<and> (\<forall>seg \<in> set (segments b). in_window seg)"
    by (auto dest: popNextId_in_window)
  with s1 show ?thesis by simp
next
  case (Work i db)
  with assms(1) obtain b h w where e: "fill_step db (alloc s) (chans s) (workers s ! i) = Some (b, h, w)"
    and s1: "alloc s1 = b"
    by (auto simp: exec_def split: option.splits if_splits)
  from fill_step_segments [OF e] have t: "bizTag b = bizTag (alloc s)"
    and c: "segments b = segments (alloc s)
         \<or> (\<exists>seg. newSegment db (alloc s) = Inr seg \<and> segments b = segments (alloc s) @ [seg])"
    by simp_all
  have "in_window seg" if "newSegment db (alloc s) = Inr seg" for seg
    using that assms(2) Work
    by (auto simp: newSegment_def grants_window_def in_window_def split: prod.splits option.splits)
  with c assms(3) have "\<forall>seg \<in> set (segments b). in_window seg" by auto
  with t s1 show ?thesis by simp
qed

lemma run_in_window:
  assumes "run ls s = Inr s1" and "\<forall>l \<in> set ls. grants_window (bizTag (alloc s)) l"
    and "\<forall>seg \<in> set (segments (alloc s)). in_window seg"
  shows "\<forall>seg \<in> set (segments (alloc s1)). in_window seg"
  using assms
proof (induction ls arbitrary: s)
  case Nil
  then show ?case by simp
next
  case (Cons l ls)
  from Cons.prems(1) obtain s2 where e: "exec l s = Inr s2" and r: "run ls s2 = Inr s1"
    by (auto split: sum.splits)
  from Cons.prems(2) have g: "grants_window (bizTag (alloc s)) l" by simp
  from exec_in_window [OF e g Cons.prems(3)] have t: "bizTag (alloc s2) = bizTag (alloc s)"
    and w: "\<forall>seg \<in> set (segments (alloc s2)). in_window seg"
    by simp_all
  from Cons.prems(2) t have "\<forall>l \<in> set ls. grants_window (bizTag (alloc s2)) l" by simp
  from Cons.IH [OF r this w] show ?case .
qed

text \<open>
  C5, as amended. Provided every window the store grants in the run is non-empty
  (\<open>maxId - step <s maxId\<close>), every segment in the buffer of every reachable state
  satisfies \<open>left \<le> left + offset < right\<close>: a new segment starts with offset 0 inside its
  window, and the pop that moves the cursor of the front segment onto \<open>right\<close> drops that
  segment in the same critical section.
\<close>

theorem segments_stay_in_window:
  assumes "run ls (init tag) = Inr s" and "\<forall>l \<in> set ls. grants_window tag l"
  shows "\<forall>seg \<in> set (segments (alloc s)).
           left seg \<le>s left seg + offset seg \<and> left seg + offset seg <s right seg"
proof -
  have "\<forall>seg \<in> set (segments (alloc s)). in_window seg"
    by (rule run_in_window [OF assms(1)]) (use assms(2) in \<open>simp_all add: init_def newBizAlloc_def\<close>)
  then show ?thesis by (simp add: in_window_def)
qed

theorem segments_stay_in_window_witness:
  "run [Call, Work 0 (granting 100 100), Work 0 (granting 100 100), Resume 0] (init ''t'')
     = Inr \<lparr>alloc = \<lparr>bizTag = ''t'', segments = [\<lparr>offset = 1, left = 0, right = 100\<rparr>],
                      isAllocating = True, waiting = []\<rparr>,
            chans = \<lparr>allocated = 1, closedChans = {0}\<rparr>,
            workers = [\<lparr>pc = LoopHead, failTimes = 0, attempts = 1\<rparr>], parked = []\<rparr>
   \<and> (0 :: int64) \<le>s 0 + 1 \<and> (0 :: int64) + 1 <s 100"
proof -
  let ?ls = "[Call, Work 0 (granting 100 100), Work 0 (granting 100 100), Resume 0]"
  let ?s = "\<lparr>alloc = \<lparr>bizTag = ''t'', segments = [\<lparr>offset = 1, left = 0, right = 100\<rparr>],
                      isAllocating = True, waiting = []\<rparr>,
            chans = \<lparr>allocated = 1, closedChans = {0}\<rparr>,
            workers = [\<lparr>pc = LoopHead, failTimes = 0, attempts = 1\<rparr>], parked = []\<rparr>"
  have r: "run ?ls (init ''t'') = Inr ?s"
    by (simp add: exec_def init_def newBizAlloc_def nextId_enter_def nextId_retry_def leftCount_def
        spawnWorker_def fill_step_def newSegment_def Data_NextId_def granting_def wakeup_def
        popNextId_def Let_def word_sless_alt word_sle_eq)
  have g: "\<forall>l \<in> set ?ls. grants_window ''t'' l"
    by (simp add: grants_window_def Data_NextId_def granting_def word_sless_alt)
  from segments_stay_in_window [OF r g] have "(0 :: int64) \<le>s 0 + 1 \<and> (0 :: int64) + 1 <s 100"
    by simp
  with r show ?thesis by simp
qed

text \<open>
  C5 as stated fails: nothing in \<^verbatim>\<open>newSegment\<close> or \<^verbatim>\<open>fillSegments\<close> looks at the sign of
  \<open>step\<close>. When the row of the tag holds \<open>step = -10\<close> and the advance returns
  \<open>maxId = 90\<close>, the worker appends the segment \<open>[100, 90)\<close>, whose cursor is at or
  beyond its right bound from the start, and the segment is in the buffer.
\<close>

theorem retired_segment_in_buffer:
  "run [Call, Work 0 (granting 90 (- 10)), Work 0 (granting 90 (- 10))] (init ''t'')
     = Inr \<lparr>alloc = \<lparr>bizTag = ''t'', segments = [\<lparr>offset = 0, left = 100, right = 90\<rparr>],
                      isAllocating = True, waiting = []\<rparr>,
            chans = \<lparr>allocated = 1, closedChans = {0}\<rparr>,
            workers = [\<lparr>pc = LoopHead, failTimes = 0, attempts = 1\<rparr>], parked = [0]\<rparr>
   \<and> \<not> (left \<lparr>offset = 0, left = 100, right = 90\<rparr> + offset \<lparr>offset = 0, left = 100, right = 90\<rparr>
          <s right \<lparr>offset = 0, left = 100, right = (90 :: int64)\<rparr>)"
  by (simp add: exec_def init_def newBizAlloc_def nextId_enter_def leftCount_def spawnWorker_def
      fill_step_def newSegment_def Data_NextId_def granting_def wakeup_def Let_def word_sless_alt)

lemma select_wait_bound: "select_wait f \<le> 2 * second"
  by (simp add: select_wait_def split: option.splits)

lemma nextId_retry_cases:
  "\<exists>res b1. nextId_retry b = Some (res, b1) \<and> waiting b1 = waiting b
      \<and> (if leftCount b \<noteq> 0 then \<exists>i. popNextId b = Some (i, b1) \<and> res = (i, None)
          else res = (0, Some NoAvailableId) \<and> b1 = b)"
proof (cases "leftCount b = 0")
  case True
  then show ?thesis by (simp add: nextId_retry_def)
next
  case False
  then obtain i b1 where p: "popNextId b = Some (i, b1)"
    using popNextId_Some [OF leftCount_nonzero] by blast
  with False popNextId_effect [OF p] show ?thesis by (simp add: nextId_retry_def)
qed

section \<open>One call of nextId\<close>

text \<open>
  C7, as amended. A call that finds nothing on the fast path (\<open>leftCount = 0\<close>) appends
  exactly one fresh channel to \<^verbatim>\<open>waiting\<close>, waits once, for at most two seconds, and then
  retries exactly once: if \<open>leftCount\<close> is then different from 0 it pops and returns that
  identifier with no error, otherwise it returns the error \<^verbatim>\<open>"no available id"\<close>. Neither the
  retry nor anything after it touches \<^verbatim>\<open>waiting\<close> again, and there is no second wait or
  retry. The amendment is the test of the retry: the source compares \<^verbatim>\<open>leftCount() != 0\<close>,
  not \<^verbatim>\<open>> 0\<close>.
\<close>

theorem nextId_slow_path:
  assumes "leftCount b = 0"
  shows "\<exists>sp b1 h1 b2 h2 res b3.
           nextId_enter b h = Some (Queued (allocated h), sp, b1, h1)
         \<and> waiting b1 = waiting b @ [allocated h]
         \<and> segments b1 = segments b
         \<and> during env (b1, h1) = (b2, h2)
         \<and> nextId env b h
             = Some (res, b3, h2, sp,
                     [Enqueued (allocated h), Waited (select_wait (fired env)), Retried])
         \<and> select_wait (fired env) \<le> 2 * second
         \<and> nextId_retry b2 = Some (res, b3)
         \<and> waiting b3 = waiting b2
         \<and> (if leftCount b2 \<noteq> 0 then \<exists>i. popNextId b2 = Some (i, b3) \<and> res = (i, None)
             else res = (0, Some NoAvailableId) \<and> b3 = b2)"
proof -
  let ?sp = "length (segments b) \<le> 1 \<and> \<not> isAllocating b"
  let ?b1 = "(if ?sp then b\<lparr>isAllocating := True\<rparr> else b)\<lparr>waiting := waiting b @ [allocated h]\<rparr>"
  let ?h1 = "h\<lparr>allocated := Suc (allocated h)\<rparr>"
  from assms have e: "nextId_enter b h = Some (Queued (allocated h), ?sp, ?b1, ?h1)"
    by (simp add: nextId_enter_def Let_def)
  obtain b2 h2 where d: "during env (?b1, ?h1) = (b2, h2)"
    by (cases "during env (?b1, ?h1)")
  from nextId_retry_cases [of b2] obtain res b3 where r: "nextId_retry b2 = Some (res, b3)"
    and w: "waiting b3 = waiting b2"
    and c: "if leftCount b2 \<noteq> 0 then \<exists>i. popNextId b2 = Some (i, b3) \<and> res = (i, None)
            else res = (0, Some NoAvailableId) \<and> b3 = b2"
    by blast
  from e d r have n: "nextId env b h
      = Some (res, b3, h2, ?sp, [Enqueued (allocated h), Waited (select_wait (fired env)), Retried])"
    by (simp add: nextId_def Let_def)
  have "waiting ?b1 = waiting b @ [allocated h]" and "segments ?b1 = segments b"
    by simp_all
  with e d n r w c select_wait_bound [of "fired env"] show ?thesis
    by blast
qed

theorem nextId_slow_path_witness:
  "leftCount (newBizAlloc ''t'') = 0
   \<and> nextId \<lparr>fired = Some 5000000,
              during = (\<lambda>(b, h). (b\<lparr>segments := [\<lparr>offset = 0, left = 0, right = 100\<rparr>], waiting := []\<rparr>,
                                   h\<lparr>closedChans := {0}\<rparr>))\<rparr>
        (newBizAlloc ''t'') \<lparr>allocated = 0, closedChans = {}\<rparr>
     = Some ((0, None),
             \<lparr>bizTag = ''t'', segments = [\<lparr>offset = 1, left = 0, right = 100\<rparr>],
                isAllocating = True, waiting = []\<rparr>,
             \<lparr>allocated = 1, closedChans = {0}\<rparr>, True,
             [Enqueued 0, Waited 5000000, Retried])
   \<and> nextId \<lparr>fired = None, during = (\<lambda>(b, h). (b, h))\<rparr>
        (newBizAlloc ''t'') \<lparr>allocated = 0, closedChans = {}\<rparr>
     = Some ((0, Some NoAvailableId),
             \<lparr>bizTag = ''t'', segments = [], isAllocating = True, waiting = [0]\<rparr>,
             \<lparr>allocated = 1, closedChans = {}\<rparr>, True,
             [Enqueued 0, Waited 2000000000, Retried])"
proof -
  let ?b = "newBizAlloc ''t''"
  let ?h = "\<lparr>allocated = 0, closedChans = {}\<rparr>"
  let ?e1 = "\<lparr>fired = Some 5000000,
              during = (\<lambda>(b, h). (b\<lparr>segments := [\<lparr>offset = 0, left = 0, right = 100\<rparr>], waiting := []\<rparr>,
                                   h\<lparr>closedChans := {0}\<rparr>))\<rparr>"
  let ?e2 = "\<lparr>fired = None, during = (\<lambda>(b, h). (b, h))\<rparr>"
  have z: "leftCount ?b = 0"
    by (simp add: leftCount_def newBizAlloc_def)
  from nextId_slow_path [OF z, of ?h ?e1]
  obtain sp b1 h1 b2 h2 res b3 where
      "nextId_enter ?b ?h = Some (Queued (allocated ?h), sp, b1, h1)"
      and "during ?e1 (b1, h1) = (b2, h2)"
      and "nextId ?e1 ?b ?h
             = Some (res, b3, h2, sp, [Enqueued (allocated ?h), Waited (select_wait (fired ?e1)), Retried])"
      and "nextId_retry b2 = Some (res, b3)"
    by blast
  then have a: "nextId ?e1 ?b ?h
     = Some ((0, None),
             \<lparr>bizTag = ''t'', segments = [\<lparr>offset = 1, left = 0, right = 100\<rparr>],
                isAllocating = True, waiting = []\<rparr>,
             \<lparr>allocated = 1, closedChans = {0}\<rparr>, True,
             [Enqueued 0, Waited 5000000, Retried])"
    by (auto simp: nextId_enter_def nextId_retry_def leftCount_def newBizAlloc_def popNextId_def
        select_wait_def second_def Let_def word_sle_eq)
  from nextId_slow_path [OF z, of ?h ?e2]
  obtain sp b1 h1 b2 h2 res b3 where
      "nextId_enter ?b ?h = Some (Queued (allocated ?h), sp, b1, h1)"
      and "during ?e2 (b1, h1) = (b2, h2)"
      and "nextId ?e2 ?b ?h
             = Some (res, b3, h2, sp, [Enqueued (allocated ?h), Waited (select_wait (fired ?e2)), Retried])"
      and "nextId_retry b2 = Some (res, b3)"
    by blast
  then have b: "nextId ?e2 ?b ?h
     = Some ((0, Some NoAvailableId),
             \<lparr>bizTag = ''t'', segments = [], isAllocating = True, waiting = [0]\<rparr>,
             \<lparr>allocated = 1, closedChans = {}\<rparr>, True,
             [Enqueued 0, Waited 2000000000, Retried])"
    by (auto simp: nextId_enter_def nextId_retry_def leftCount_def newBizAlloc_def popNextId_def
        select_wait_def second_def Let_def)
  from z a b show ?thesis by blast
qed

text \<open>
  C7 as stated fails where the count is negative. After an advance that returned
  \<open>maxId = 90\<close> with \<open>step = -10\<close> the buffer holds the segment \<open>[100, 90)\<close> and
  \<open>leftCount\<close> is \<open>-10\<close>, which is not greater than 0; the caller that was queued comes
  back, finds \<open>leftCount \<noteq> 0\<close>, pops and returns the identifier 100 with no error.
\<close>

theorem retry_with_negative_remaining:
  "run [Call, Work 0 (granting 90 (- 10)), Work 0 (granting 90 (- 10))] (init ''t'')
     = Inr \<lparr>alloc = \<lparr>bizTag = ''t'', segments = [\<lparr>offset = 0, left = 100, right = 90\<rparr>],
                      isAllocating = True, waiting = []\<rparr>,
            chans = \<lparr>allocated = 1, closedChans = {0}\<rparr>,
            workers = [\<lparr>pc = LoopHead, failTimes = 0, attempts = 1\<rparr>], parked = [0]\<rparr>
   \<and> leftCount \<lparr>bizTag = ''t'', segments = [\<lparr>offset = 0, left = 100, right = 90\<rparr>],
                 isAllocating = True, waiting = []\<rparr> = - 10
   \<and> \<not> (0 <s (- 10 :: int64))
   \<and> nextId_retry \<lparr>bizTag = ''t'', segments = [\<lparr>offset = 0, left = 100, right = 90\<rparr>],
                    isAllocating = True, waiting = []\<rparr>
     = Some ((100, None), \<lparr>bizTag = ''t'', segments = [], isAllocating = True, waiting = []\<rparr>)"
  by (simp add: exec_def init_def newBizAlloc_def nextId_enter_def nextId_retry_def leftCount_def
      spawnWorker_def fill_step_def newSegment_def Data_NextId_def granting_def wakeup_def
      popNextId_def Let_def word_sless_alt word_sle_eq)

section \<open>The registry\<close>




text \<open>
  C10. For a tag that has no allocator in the registry, \<^verbatim>\<open>Alloc.LeftCount\<close> returns 0 and
  leaves the map as it is, so the tag is still unknown afterwards, whereas the lookup at the
  start of \<^verbatim>\<open>Alloc.NextId\<close> stores a fresh allocator under the tag.
\<close>

theorem LeftCount_unknown_tag:
  assumes "bizMap a tag = None"
  shows "Alloc_LeftCount a tag = (0, a)
       \<and> bizMap (snd (Alloc_LeftCount a tag)) tag = None
       \<and> bizMap (fst (resolve a tag)) tag = Some (newBizAlloc tag)"
  using assms by (simp add: Alloc_LeftCount_def resolve_def)

theorem LeftCount_unknown_tag_witness:
  "bizMap \<lparr>bizMap = Map.empty\<rparr> ''t'' = None
   \<and> Alloc_LeftCount \<lparr>bizMap = Map.empty\<rparr> ''t'' = (0, \<lparr>bizMap = Map.empty\<rparr>)
   \<and> bizMap (fst (resolve \<lparr>bizMap = Map.empty\<rparr> ''t'')) ''t'' = Some (newBizAlloc ''t'')"
  using LeftCount_unknown_tag [of "\<lparr>bizMap = Map.empty\<rparr>" "''t''"] by simp

end
